theory Spec2Isabelle
  imports Main "HOL-Library.Word" "HOL-Library.Sublist"
begin

unbundle bit_operations_syntax

section \<open>Data model of \<^verbatim>\<open>view.go\<close>\<close>

text \<open>
  The package keeps a binary trie over 32-bit IPv4 addresses. Go's \<^verbatim>\<open>uint32\<close> is
  \<open>32 word\<close>, \<^verbatim>\<open>uint8\<close> is \<open>8 word\<close>, and Go's \<^verbatim>\<open>int\<close> is \<open>int\<close>: the only
  arithmetic on it is \<^verbatim>\<open>mask--\<close> under the guard \<^verbatim>\<open>mask > 0\<close>, which cannot wrap.
\<close>

type_synonym u8 = "8 word"
type_synonym u32 = "32 word"

text \<open>The four package-level error values.\<close>

datatype error = errBadLine | errBadSubnet | errDupNet | errBadAddress

text \<open>\<^verbatim>\<open>type ViewInfo struct { area string; subnet string }\<close>\<close>

record ViewInfo =
  area :: string
  subnet :: string

text \<open>
  \<^verbatim>\<open>type viewNode struct { left *viewNode; right *viewNode; vinfo *ViewInfo }\<close>

  A pointer is an \<open>option\<close>, \<open>None\<close> being \<^verbatim>\<open>nil\<close>. Every child pointer is written once,
  with a freshly allocated \<^verbatim>\<open>&viewNode{}\<close>, so the nodes reachable from the root form a
  tree and each node is owned by exactly one parent; the pointer graph is therefore the
  value of this datatype.
\<close>

datatype viewNode =
  ViewNode (left: "viewNode option") (right: "viewNode option") (vinfo: "ViewInfo option")

text \<open>\<^verbatim>\<open>type View struct { root viewNode; fileName string; lineNum uint }\<close>\<close>

record View =
  root :: viewNode
  fileName :: string
  lineNum :: nat

text \<open>\<^verbatim>\<open>&viewNode{}\<close>: the zero value of the node struct.\<close>

definition emptyNode :: viewNode where
  "emptyNode = ViewNode None None None"

text \<open>\<^verbatim>\<open>func New() *View { return &View{} }\<close>\<close>

definition New :: View where
  "New = \<lparr>root = emptyNode, fileName = [], lineNum = 0\<rparr>"

section \<open>Address codec\<close>

text \<open>
  \<^verbatim>\<open>viewUintAddr\<close> reads the four bytes of the array with
  \<^verbatim>\<open>binary.Read(buf, binary.BigEndian, &unetaddr)\<close>. Go's \<^verbatim>\<open>encoding/binary\<close> defines the
  big-endian \<^verbatim>\<open>uint32\<close> of \<^verbatim>\<open>b\<close> as
  \<^verbatim>\<open>uint32(b[3]) | uint32(b[2])<<8 | uint32(b[1])<<16 | uint32(b[0])<<24\<close>.
  The array \<^verbatim>\<open>[4]uint8\<close> is a quadruple.
\<close>

definition bigEndianUint32 :: "u8 \<Rightarrow> u8 \<Rightarrow> u8 \<Rightarrow> u8 \<Rightarrow> u32" where
  "bigEndianUint32 b0 b1 b2 b3 =
     ucast b3 OR push_bit 8 (ucast b2) OR push_bit 16 (ucast b1) OR push_bit 24 (ucast b0)"

fun viewUintAddr :: "u8 \<times> u8 \<times> u8 \<times> u8 \<Rightarrow> u32" where
  "viewUintAddr (n0, n1, n2, n3) = bigEndianUint32 n0 n1 n2 n3"

section \<open>The trie operations\<close>

text \<open>
  The child selected by one iteration of either loop:
  \<^verbatim>\<open>if unetaddr&bit != 0 { next = node.right } else { next = node.left }\<close>
  The source's variables \<^verbatim>\<open>bit\<close> and \<^verbatim>\<open>mask\<close> are written \<open>b\<close> and \<open>msk\<close> throughout.
\<close>

definition goRight :: "u32 \<Rightarrow> u32 \<Rightarrow> bool" where
  "goRight unetaddr b \<longleftrightarrow> unetaddr AND b \<noteq> 0"

definition child :: "viewNode \<Rightarrow> u32 \<Rightarrow> u32 \<Rightarrow> viewNode option" where
  "child node unetaddr b = (if goRight unetaddr b then right node else left node)"

text \<open>\<^verbatim>\<open>node.right = next\<close> or \<^verbatim>\<open>node.left = next\<close>, chosen by the same test.\<close>

definition setChild :: "viewNode \<Rightarrow> u32 \<Rightarrow> u32 \<Rightarrow> viewNode \<Rightarrow> viewNode" where
  "setChild node unetaddr b next =
     (if goRight unetaddr b
      then ViewNode (left node) (Some next) (vinfo node)
      else ViewNode (Some next) (right node) (vinfo node))"

definition setVinfo :: "viewNode \<Rightarrow> ViewInfo option \<Rightarrow> viewNode" where
  "setVinfo node info = ViewNode (left node) (right node) info"

text \<open>
  The second loop of \<^verbatim>\<open>viewInsert\<close> (the creation phase), entered at \<open>node\<close> with the
  remaining \<open>msk\<close> and the current \<open>b\<close>:
  \<^verbatim>\<open>
  for mask > 0 {
      next = &viewNode{}
      if unetaddr&bit != 0 { node.right = next } else { node.left = next }
      mask--; bit >>= 1; node = next
  }
  node.vinfo = info
  \<close>
  The result is \<open>node\<close> as it is after the writes below it.
\<close>

function viewInsert_create :: "viewNode \<Rightarrow> u32 \<Rightarrow> u32 \<Rightarrow> int \<Rightarrow> ViewInfo option \<Rightarrow> viewNode" where
  "viewInsert_create node unetaddr b msk info =
     (if msk > 0
      then setChild node unetaddr b
             (viewInsert_create emptyNode unetaddr (drop_bit 1 b) (msk - 1) info)
      else setVinfo node info)"
  by pat_completeness auto
termination
  by (relation "measure (\<lambda>(node, unetaddr, b, msk, info). nat msk)") auto

declare viewInsert_create.simps [simp del]

text \<open>
  The first loop of \<^verbatim>\<open>viewInsert\<close> and the code after it, entered at \<open>node\<close>:
  \<^verbatim>\<open>
  for mask > 0 {
      if unetaddr&bit != 0 { next = node.right } else { next = node.left }
      if next == nil { break }
      bit >>= 1; node = next; mask--
  }
  if next != nil {
      if node.vinfo != nil { return errDupNet }
      node.vinfo = info
      return nil
  }
  ... creation phase ...
  \<close>
  \<open>next\<close> is \<^verbatim>\<open>nil\<close> after the loop exactly when the loop was left by \<^verbatim>\<open>break\<close>
  (it starts as \<^verbatim>\<open>&v.root\<close> and otherwise equals \<open>node\<close>). The result is the returned
  error (\<open>None\<close> is \<^verbatim>\<open>nil\<close>) and \<open>node\<close> as it is after the call; on the way back each
  parent keeps its pointer to the child, which is written here as storing the child again.
\<close>

function viewInsert_walk ::
  "viewNode \<Rightarrow> u32 \<Rightarrow> u32 \<Rightarrow> int \<Rightarrow> ViewInfo option \<Rightarrow> error option \<times> viewNode" where
  "viewInsert_walk node unetaddr b msk info =
     (if msk > 0
      then (case child node unetaddr b of
              None \<Rightarrow> (None, viewInsert_create node unetaddr b msk info)
            | Some next \<Rightarrow>
                (case viewInsert_walk next unetaddr (drop_bit 1 b) (msk - 1) info of
                   (err, next') \<Rightarrow> (err, setChild node unetaddr b next')))
      else if vinfo node \<noteq> None then (Some errDupNet, node)
      else (None, setVinfo node info))"
  by pat_completeness auto
termination
  by (relation "measure (\<lambda>(node, unetaddr, b, msk, info). nat msk)") auto

declare viewInsert_walk.simps [simp del]

text \<open>
  \<^verbatim>\<open>func (v *View) viewInsert(unetaddr uint32, mask int, info *ViewInfo) (err error)\<close>:
  the walk starts at \<^verbatim>\<open>&v.root\<close> with \<^verbatim>\<open>bit = 0x80000000\<close>. The result is the error and
  the receiver after the call.
\<close>

definition viewInsert :: "View \<Rightarrow> u32 \<Rightarrow> int \<Rightarrow> ViewInfo option \<Rightarrow> error option \<times> View" where
  "viewInsert v unetaddr msk info =
     (case viewInsert_walk (root v) unetaddr 0x80000000 msk info of
        (err, r) \<Rightarrow> (err, v\<lparr>root := r\<rparr>))"

text \<open>
  The loop of \<^verbatim>\<open>viewLookup\<close>:
  \<^verbatim>\<open>
  for node != nil {
      if node.vinfo != nil { info = node.vinfo }
      if unetaddr&bit != 0 { node = node.right } else { node = node.left }
      bit >>= 1
  }
  return
  \<close>
\<close>

fun viewLookup_loop :: "viewNode option \<Rightarrow> u32 \<Rightarrow> u32 \<Rightarrow> ViewInfo option \<Rightarrow> ViewInfo option" where
  "viewLookup_loop None unetaddr b info = info"
| "viewLookup_loop (Some (ViewNode l r vi)) unetaddr b info =
     viewLookup_loop (if goRight unetaddr b then r else l) unetaddr (drop_bit 1 b)
       (if vi \<noteq> None then vi else info)"

definition viewLookup :: "View \<Rightarrow> u32 \<Rightarrow> ViewInfo option" where
  "viewLookup v unetaddr = viewLookup_loop (Some (root v)) unetaddr 0x80000000 None"

text \<open>The number of iterations of the loop of \<^verbatim>\<open>viewLookup\<close>, one per node visited.\<close>

fun viewLookup_visits :: "viewNode option \<Rightarrow> u32 \<Rightarrow> u32 \<Rightarrow> nat" where
  "viewLookup_visits None unetaddr b = 0"
| "viewLookup_visits (Some (ViewNode l r vi)) unetaddr b =
     Suc (viewLookup_visits (if goRight unetaddr b then r else l) unetaddr (drop_bit 1 b))"

section \<open>Library functions used by the parsers\<close>

text \<open>
  \<^verbatim>\<open>bytes.Split(s, sep)\<close> of Go's standard library, for a separator of one byte (both
  separators of the package, \<^verbatim>\<open>"."\<close> and \<^verbatim>\<open>"/"\<close>, are one byte): the subslices of \<open>s\<close>
  between the occurrences of the separator, one more than there are occurrences; a slice
  without the separator gives the slice itself as the only element.
\<close>

fun bytesSplit :: "string \<Rightarrow> char \<Rightarrow> string list" where
  "bytesSplit [] sep = [[]]"
| "bytesSplit (c # cs) sep =
     (if c = sep then [] # bytesSplit cs sep
      else (case bytesSplit cs sep of [] \<Rightarrow> [[c]] | f # fs \<Rightarrow> (c # f) # fs))"

text \<open>
  \<^verbatim>\<open>strconv.Atoi(s)\<close> of Go's standard library, which is \<^verbatim>\<open>ParseInt(s, 10, 0)\<close>: an optional
  sign \<^verbatim>\<open>+\<close> or \<^verbatim>\<open>-\<close> followed by one or more decimal digits; the empty string, any other
  character and a value that does not fit Go's \<^verbatim>\<open>int\<close> are errors (\<open>None\<close>). Go's \<^verbatim>\<open>int\<close> has
  \<^verbatim>\<open>strconv.IntSize\<close> bits, 64 on the usual platforms.
\<close>

definition intSize :: nat where
  "intSize = 64"

definition isDigit :: "char \<Rightarrow> bool" where
  "isDigit c \<longleftrightarrow> c \<in> set ''0123456789''"

definition digitVal :: "char \<Rightarrow> int" where
  "digitVal c = of_char c - of_char (CHR ''0'')"

definition decimal :: "string \<Rightarrow> int" where
  "decimal ds = foldl (\<lambda>n c. n * 10 + digitVal c) 0 ds"

definition Atoi :: "string \<Rightarrow> int option" where
  "Atoi s =
     (case s of
        [] \<Rightarrow> None
      | c # cs \<Rightarrow>
          (let neg = (c = CHR ''-'');
               ds = (if c = CHR ''+'' \<or> c = CHR ''-'' then cs else s)
           in if ds = [] \<or> \<not> list_all isDigit ds then None
              else if \<not> neg \<and> decimal ds \<ge> 2 ^ (intSize - 1) then None
              else if neg \<and> decimal ds > 2 ^ (intSize - 1) then None
              else Some (if neg then - decimal ds else decimal ds)))"

section \<open>Parsing addresses and subnets\<close>

text \<open>
  The loop shared by \<^verbatim>\<open>Lookup\<close> and \<^verbatim>\<open>viewSubnet\<close>, over the four fields:
  \<^verbatim>\<open>
  for i := 0; i < 4; i++ {
      baddr, err := strconv.Atoi(string(ipfs[i]))
      if err != nil { return ... }
      netaddr[i] = uint8(baddr)
  }
  \<close>
  \<open>None\<close> is the early return; the conversion \<^verbatim>\<open>uint8(baddr)\<close> keeps the low eight bits.
  Both callers have checked \<^verbatim>\<open>len(ipfs) == 4\<close> before.
\<close>

definition parseOctets :: "string list \<Rightarrow> (u8 \<times> u8 \<times> u8 \<times> u8) option" where
  "parseOctets ipfs =
     (case ipfs of
        [f0, f1, f2, f3] \<Rightarrow>
          (case Atoi f0 of None \<Rightarrow> None | Some b0 \<Rightarrow>
          (case Atoi f1 of None \<Rightarrow> None | Some b1 \<Rightarrow>
          (case Atoi f2 of None \<Rightarrow> None | Some b2 \<Rightarrow>
          (case Atoi f3 of None \<Rightarrow> None | Some b3 \<Rightarrow>
             Some (word_of_int b0, word_of_int b1, word_of_int b2, word_of_int b3)))))
      | _ \<Rightarrow> None)"

text \<open>
  \<^verbatim>\<open>Lookup\<close> up to the call of \<^verbatim>\<open>viewLookup\<close>: the address the string denotes, \<open>None\<close> where
  \<^verbatim>\<open>Lookup\<close> returns \<^verbatim>\<open>nil, errBadAddress\<close>.
\<close>

definition parseAddr :: "string \<Rightarrow> u32 option" where
  "parseAddr addr =
     (let ipfs = bytesSplit addr (CHR ''.'')
      in if length ipfs \<noteq> 4 then None
         else (case parseOctets ipfs of None \<Rightarrow> None | Some netaddr \<Rightarrow> Some (viewUintAddr netaddr)))"

text \<open>\<^verbatim>\<open>func (v *View) Lookup(addr string) (info *ViewInfo, err error)\<close>\<close>

definition Lookup :: "View \<Rightarrow> string \<Rightarrow> ViewInfo option \<times> error option" where
  "Lookup v addr =
     (case parseAddr addr of
        None \<Rightarrow> (None, Some errBadAddress)
      | Some unetaddr \<Rightarrow> (viewLookup v unetaddr, None))"

text \<open>
  \<^verbatim>\<open>func (v *View) viewSubnet(subnet []byte, area []byte) (err error)\<close>. The error returned by
  \<^verbatim>\<open>viewInsert\<close> is dropped and \<^verbatim>\<open>nil\<close> is returned. The parameters are written \<open>snet\<close>
  and \<open>ar\<close>.
\<close>

definition viewSubnet :: "View \<Rightarrow> string \<Rightarrow> string \<Rightarrow> error option \<times> View" where
  "viewSubnet v snet ar =
     (let netfs = bytesSplit snet (CHR ''/'')
      in if length netfs \<noteq> 2 then (Some errBadSubnet, v)
         else let ipfs = bytesSplit (netfs ! 0) (CHR ''.'')
           in if length ipfs \<noteq> 4 then (Some errBadSubnet, v)
              else (case parseOctets ipfs of
                      None \<Rightarrow> (Some errBadSubnet, v)
                    | Some netaddr \<Rightarrow>
                        (case Atoi (netfs ! 1) of
                           None \<Rightarrow> (Some errBadSubnet, v)
                         | Some msk \<Rightarrow>
                             (None, snd (viewInsert v (viewUintAddr netaddr) msk
                                      (Some \<lparr>area = ar, subnet = snet\<rparr>))))))"

section \<open>Sequences of insertions\<close>

text \<open>
  The trie is filled by consecutive calls of \<^verbatim>\<open>viewInsert\<close>, each with a fresh non-nil
  \<^verbatim>\<open>&ViewInfo{...}\<close>; the caller \<^verbatim>\<open>viewSubnet\<close> drops the returned error and goes on
  with the next call. A call is the triple of its arguments.
\<close>

type_synonym call = "u32 \<times> int \<times> ViewInfo"

fun insertAll :: "View \<Rightarrow> call list \<Rightarrow> View" where
  "insertAll v [] = v"
| "insertAll v ((a, n, e) # cs) = insertAll (snd (viewInsert v a n (Some e))) cs"

text \<open>The calls of the sequence that returned \<^verbatim>\<open>nil\<close>, in order.\<close>

fun inserted :: "View \<Rightarrow> call list \<Rightarrow> call list" where
  "inserted v [] = []"
| "inserted v ((a, n, e) # cs) =
     (if fst (viewInsert v a n (Some e)) = None then [(a, n, e)] else [])
       @ inserted (snd (viewInsert v a n (Some e))) cs"

section \<open>Notions of the specification\<close>

text \<open>
  The prefix \<open>a/n\<close> contains the address \<open>A\<close> when the \<open>n\<close> leading bits of both agree,
  that is, when both are equal after the \<open>32 - n\<close> low bits are shifted out.
\<close>

definition prefixMatch :: "u32 \<Rightarrow> int \<Rightarrow> u32 \<Rightarrow> bool" where
  "prefixMatch a n A \<longleftrightarrow> drop_bit (32 - nat n) a = drop_bit (32 - nat n) A"

text \<open>The leading bits and the length of a call's prefix: what identifies the prefix.\<close>

definition prefixKey :: "call \<Rightarrow> u32 \<times> int" where
  "prefixKey c = (case c of (a, n, e) \<Rightarrow> (drop_bit (32 - nat n) a, n))"

text \<open>
  The value of \<^verbatim>\<open>bit\<close> after \<open>i\<close> iterations of either loop, and the branch taken in
  iteration \<open>i\<close> for the address \<open>a\<close> (\<open>True\<close> is \<^verbatim>\<open>right\<close>).
\<close>

definition topBit :: "nat \<Rightarrow> u32" where
  "topBit i = drop_bit i 0x80000000"

definition dirAt :: "u32 \<Rightarrow> nat \<Rightarrow> bool" where
  "dirAt a i = goRight a (topBit i)"

text \<open>The branches of iterations \<open>i, \<dots>, i + n - 1\<close>; the bit path of a prefix \<open>a/n\<close>.\<close>

definition pathFrom :: "u32 \<Rightarrow> nat \<Rightarrow> nat \<Rightarrow> bool list" where
  "pathFrom a i n = map (dirAt a) [i..<i + n]"

definition addrPath :: "u32 \<Rightarrow> int \<Rightarrow> bool list" where
  "addrPath a n = pathFrom a 0 (nat n)"

text \<open>
  The entry carried by the node reached from a pointer along a path of branches; \<open>None\<close>
  when the path leaves the trie or the node carries no entry.
\<close>

fun vinfoAt :: "viewNode option \<Rightarrow> bool list \<Rightarrow> ViewInfo option" where
  "vinfoAt None ks = None"
| "vinfoAt (Some (ViewNode l r vi)) [] = vi"
| "vinfoAt (Some (ViewNode l r vi)) (k # ks) = vinfoAt (if k then r else l) ks"

definition entryAt :: "View \<Rightarrow> bool list \<Rightarrow> ViewInfo option" where
  "entryAt v ks = vinfoAt (Some (root v)) ks"

text \<open>The number of nodes on the longest path below a pointer.\<close>

fun height :: "viewNode option \<Rightarrow> nat" where
  "height None = 0"
| "height (Some (ViewNode l r vi)) = Suc (max (height l) (height r))"

text \<open>
  The loop of \<^verbatim>\<open>viewLookup\<close> cut off after \<open>k\<close> iterations: \<open>None\<close> when the loop has not
  finished by then, otherwise the value returned.
\<close>

fun viewLookup_bounded ::
  "nat \<Rightarrow> viewNode option \<Rightarrow> u32 \<Rightarrow> u32 \<Rightarrow> ViewInfo option \<Rightarrow> ViewInfo option option" where
  "viewLookup_bounded k None unetaddr b info = Some info"
| "viewLookup_bounded 0 (Some node) unetaddr b info = None"
| "viewLookup_bounded (Suc k) (Some (ViewNode l r vi)) unetaddr b info =
     viewLookup_bounded k (if goRight unetaddr b then r else l) unetaddr (drop_bit 1 b)
       (if vi \<noteq> None then vi else info)"

section \<open>The shifted bit and the bit path\<close>

lemma topBit_0: "topBit 0 = 0x80000000"
  by (simp add: topBit_def)

lemma topBit_Suc: "drop_bit 1 (topBit i) = topBit (Suc i)"
  unfolding topBit_def by (simp only: drop_bit_drop_bit add.commute [of 1] Suc_eq_plus1)

lemma topBit_Suc0 [simp]: "drop_bit (Suc 0) (topBit i) = topBit (Suc i)"
  using topBit_Suc [of i] by simp

lemma topBit_eq: "topBit i = (if i < 32 then 2 ^ (31 - i) else 0)"
proof -
  have "(0x80000000 :: u32) = 2 ^ 31" by simp
  then show ?thesis
    unfolding topBit_def by (simp only: drop_bit_exp_eq) (auto simp: not_less)
qed

lemma dirAt_bit: "dirAt a i \<longleftrightarrow> i < 32 \<and> bit a (31 - i)"
  unfolding dirAt_def goRight_def topBit_eq
  by (auto simp: and_exp_eq_0_iff_not_bit)

lemma pathFrom_0 [simp]: "pathFrom a i 0 = []"
  by (simp add: pathFrom_def)

lemma pathFrom_Suc: "pathFrom a i (Suc n) = dirAt a i # pathFrom a (Suc i) n"
  by (simp add: pathFrom_def upt_rec)

lemma length_pathFrom [simp]: "length (pathFrom a i n) = n"
  by (simp add: pathFrom_def)

lemma pathFrom_pos:
  assumes "0 < msk"
  shows "pathFrom a i (nat msk) = dirAt a i # pathFrom a (Suc i) (nat (msk - 1))"
proof -
  from assms have "nat msk = Suc (nat (msk - 1))" by arith
  then show ?thesis by (simp add: pathFrom_Suc)
qed

lemma vinfo_setChild [simp]: "vinfo (setChild node a b c) = vinfo node"
  by (simp add: setChild_def)

lemma vinfo_emptyNode [simp]: "vinfo emptyNode = None"
  by (simp add: emptyNode_def)

lemma vinfoAt_setChild:
  "vinfoAt (Some (setChild node a b c)) ks =
     (case ks of [] \<Rightarrow> vinfo node
      | k # ks' \<Rightarrow> if k = goRight a b then vinfoAt (Some c) ks' else vinfoAt (Some node) ks)"
  by (cases node) (auto simp: setChild_def split: list.splits)

lemma vinfoAt_setVinfo:
  "vinfoAt (Some (setVinfo node info)) ks = (if ks = [] then info else vinfoAt (Some node) ks)"
  by (cases node; cases ks) (auto simp: setVinfo_def)

lemma vinfoAt_emptyNode [simp]: "vinfoAt (Some emptyNode) ks = None"
  by (cases ks) (auto simp: emptyNode_def)

lemma vinfoAt_child:
  "vinfoAt (Some node) (k # ks) = vinfoAt (if k then right node else left node) ks"
  by (cases node) simp

lemma vinfoAt_nil: "vinfoAt (Some node) [] = vinfo node"
  by (cases node) simp

lemma vinfoAt_missing_child:
  "child node a (topBit i) = None \<Longrightarrow> vinfoAt (Some node) (dirAt a i # ks) = None"
  by (simp add: vinfoAt_child child_def dirAt_def)

lemma vinfoAt_present_child:
  "child node a (topBit i) = Some c \<Longrightarrow> vinfoAt (Some node) (dirAt a i # ks) = vinfoAt (Some c) ks"
  by (simp add: vinfoAt_child child_def dirAt_def)

lemma vinfoAt_create_empty:
  "vinfoAt (Some (viewInsert_create emptyNode a (topBit i) msk info)) ks =
     (if ks = pathFrom a i (nat msk) then info else None)"
proof (induction "nat msk" arbitrary: msk i ks)
  case 0
  then show ?case
    by (subst viewInsert_create.simps) (simp add: vinfoAt_setVinfo)
next
  case (Suc n)
  then have pos: "0 < msk" and n: "n = nat (msk - 1)" by arith+
  note IH = Suc.hyps(1) [OF n, of "Suc i"]
  have step: "viewInsert_create emptyNode a (topBit i) msk info =
      setChild emptyNode a (topBit i) (viewInsert_create emptyNode a (topBit (Suc i)) (msk - 1) info)"
    using pos by (subst viewInsert_create.simps) (simp add: topBit_Suc)
  show ?case
    unfolding step
    by (cases ks) (auto simp: vinfoAt_setChild IH pathFrom_pos [OF pos] dirAt_def)
qed

lemma vinfoAt_create:
  assumes "0 < msk \<longrightarrow> child node a (topBit i) = None"
  shows "vinfoAt (Some (viewInsert_create node a (topBit i) msk info)) ks =
     (if ks = pathFrom a i (nat msk) then info else vinfoAt (Some node) ks)"
proof (cases "0 < msk")
  case False
  then show ?thesis
    by (subst viewInsert_create.simps) (simp add: vinfoAt_setVinfo)
next
  case True
  with assms have nil: "child node a (topBit i) = None" by simp
  have step: "viewInsert_create node a (topBit i) msk info =
      setChild node a (topBit i) (viewInsert_create emptyNode a (topBit (Suc i)) (msk - 1) info)"
    using True by (subst viewInsert_create.simps) (simp add: topBit_Suc)
  show ?thesis
    unfolding step
    using vinfoAt_missing_child [OF nil]
    by (cases ks)
      (auto simp: vinfoAt_setChild vinfoAt_create_empty pathFrom_pos [OF True] vinfoAt_nil
         dirAt_def [symmetric])
qed

lemma viewInsert_walk_spec:
  "fst (viewInsert_walk node a (topBit i) msk info) =
     (if vinfoAt (Some node) (pathFrom a i (nat msk)) \<noteq> None then Some errDupNet else None)
   \<and> (\<forall>ks. vinfoAt (Some (snd (viewInsert_walk node a (topBit i) msk info))) ks =
     (if ks = pathFrom a i (nat msk) \<and> vinfoAt (Some node) ks = None then info
      else vinfoAt (Some node) ks))"
proof (induction "nat msk" arbitrary: msk i node)
  case 0
  then show ?case
    by (subst (1 2) viewInsert_walk.simps) (auto simp: vinfoAt_setVinfo vinfoAt_nil)
next
  case (Suc n)
  then have pos: "0 < msk" and n: "n = nat (msk - 1)" by arith+
  show ?case
  proof (cases "child node a (topBit i)")
    case None
    have step: "viewInsert_walk node a (topBit i) msk info =
        (None, viewInsert_create node a (topBit i) msk info)"
      using pos None by (subst viewInsert_walk.simps) simp
    show ?thesis
      unfolding step
      using vinfoAt_missing_child [OF None] None
      by (simp add: vinfoAt_create pathFrom_pos [OF pos])
  next
    case (Some c)
    note sub = vinfoAt_present_child [OF Some]
    note IH = Suc.hyps(1) [OF n, of c "Suc i"]
    have step: "viewInsert_walk node a (topBit i) msk info =
        (fst (viewInsert_walk c a (topBit (Suc i)) (msk - 1) info),
         setChild node a (topBit i) (snd (viewInsert_walk c a (topBit (Suc i)) (msk - 1) info)))"
      using pos Some by (subst viewInsert_walk.simps) (simp add: topBit_Suc split: prod.splits)
    show ?thesis
      unfolding step
      using IH sub
      by (auto simp: pathFrom_pos [OF pos] vinfoAt_setChild vinfoAt_nil dirAt_def [symmetric]
          split: list.splits)
  qed
qed

lemma viewInsert_walk_dup_unchanged:
  "fst (viewInsert_walk node a b msk info) \<noteq> None \<Longrightarrow>
   snd (viewInsert_walk node a b msk info) = node"
proof (induction node a b msk info rule: viewInsert_walk.induct)
  case (1 node a b msk info)
  show ?case
  proof (cases "0 < msk")
    case False
    with "1.prems" show ?thesis
      by (auto simp: viewInsert_walk.simps [of node] split: if_splits)
  next
    case True
    show ?thesis
    proof (cases "child node a b")
      case None
      with True "1.prems" show ?thesis
        by (simp add: viewInsert_walk.simps [of node])
    next
      case (Some c)
      have step: "viewInsert_walk node a b msk info =
        (fst (viewInsert_walk c a (drop_bit 1 b) (msk - 1) info),
         setChild node a b (snd (viewInsert_walk c a (drop_bit 1 b) (msk - 1) info)))"
        using True Some by (subst viewInsert_walk.simps) (simp split: prod.splits)
      from "1.prems" have "fst (viewInsert_walk c a (drop_bit 1 b) (msk - 1) info) \<noteq> None"
        unfolding step by simp
      from "1.IH" [OF True Some this]
      have "snd (viewInsert_walk c a (drop_bit 1 b) (msk - 1) info) = c" .
      with Some show ?thesis
        unfolding step by (cases node) (auto simp: setChild_def child_def split: if_splits)
    qed
  qed
qed

section \<open>The lookup loop along the path of an address\<close>

lemma viewLookup_loop_none:
  "(\<And>n. vinfoAt p (pathFrom a i n) = None) \<Longrightarrow>
   viewLookup_loop p a (topBit i) info = info"
proof (induction p a "topBit i" info arbitrary: i rule: viewLookup_loop.induct)
  case (1 a info)
  then show ?case by simp
next
  case (2 l r vi a info)
  from "2.prems" [of 0] have vi: "vi = None" by simp
  have "vinfoAt (if goRight a (topBit i) then r else l) (pathFrom a (Suc i) n) = None" for n
    using "2.prems" [of "Suc n"] by (simp add: pathFrom_Suc dirAt_def)
  from "2.hyps" [OF topBit_Suc this] vi show ?case
    by (simp add: topBit_Suc)
qed

lemma viewLookup_loop_last:
  "vinfoAt p (pathFrom a i n) = Some e \<Longrightarrow>
   (\<And>m. n < m \<Longrightarrow> vinfoAt p (pathFrom a i m) = None) \<Longrightarrow>
   viewLookup_loop p a (topBit i) info = Some e"
proof (induction p a "topBit i" info arbitrary: i n rule: viewLookup_loop.induct)
  case (1 a info)
  then show ?case by simp
next
  case (2 l r vi a info)
  let ?c = "if goRight a (topBit i) then r else l"
  have deeper: "vinfoAt (Some (ViewNode l r vi)) (pathFrom a i (Suc m)) = vinfoAt ?c (pathFrom a (Suc i) m)" for m
    by (simp add: pathFrom_Suc dirAt_def)
  show ?case
  proof (cases n)
    case 0
    with "2.prems"(1) have vi: "vi = Some e" by simp
    have "vinfoAt ?c (pathFrom a (Suc i) m) = None" for m
      using "2.prems"(2) [of "Suc m"] 0 deeper by simp
    then have "viewLookup_loop ?c a (topBit (Suc i)) (Some e) = Some e"
      by (rule viewLookup_loop_none)
    with vi show ?thesis by (simp add: topBit_Suc)
  next
    case (Suc n')
    with "2.prems"(1) deeper have a1: "vinfoAt ?c (pathFrom a (Suc i) n') = Some e" by simp
    have a2: "vinfoAt ?c (pathFrom a (Suc i) m) = None" if "n' < m" for m
      using "2.prems"(2) [of "Suc m"] Suc that deeper by simp
    from "2.hyps" [OF topBit_Suc a1 a2] show ?thesis
      by (simp add: topBit_Suc)
  qed
qed

section \<open>One insertion\<close>

lemma fst_viewInsert: "fst (viewInsert v a n info) = fst (viewInsert_walk (root v) a (topBit 0) n info)"
  by (simp add: viewInsert_def topBit_0 split: prod.splits)

lemma root_viewInsert: "root (snd (viewInsert v a n info)) = snd (viewInsert_walk (root v) a (topBit 0) n info)"
  by (simp add: viewInsert_def topBit_0 split: prod.splits)

lemma viewInsert_err:
  "fst (viewInsert v a n info) = (if entryAt v (addrPath a n) \<noteq> None then Some errDupNet else None)"
  using viewInsert_walk_spec [of "root v" a 0 n info]
  by (auto simp: fst_viewInsert root_viewInsert entryAt_def addrPath_def)

lemma entryAt_viewInsert:
  "entryAt (snd (viewInsert v a n info)) ks =
     (if ks = addrPath a n \<and> entryAt v ks = None then info else entryAt v ks)"
  using viewInsert_walk_spec [of "root v" a 0 n info]
  by (auto simp: fst_viewInsert root_viewInsert entryAt_def addrPath_def)

lemma viewInsert_failed_unchanged:
  "fst (viewInsert v a n info) \<noteq> None \<Longrightarrow> snd (viewInsert v a n info) = v"
  using viewInsert_walk_dup_unchanged [of "root v" a "topBit 0" n info]
  by (simp add: viewInsert_def topBit_0 split: prod.splits)

lemma viewInsert_nonpos:
  "n \<le> 0 \<Longrightarrow> viewInsert v a n info =
     (if vinfo (root v) \<noteq> None then (Some errDupNet, v)
      else (None, v\<lparr>root := setVinfo (root v) info\<rparr>))"
  by (simp add: viewInsert_def viewInsert_walk.simps [of "root v"])

section \<open>Sequences of insertions and the longest match\<close>

lemma entryAt_insertAll_keeps:
  "entryAt v ks = Some e \<Longrightarrow> entryAt (insertAll v cs) ks = Some e"
proof (induction cs arbitrary: v)
  case Nil
  then show ?case by simp
next
  case (Cons c cs)
  obtain a n e' where c: "c = (a, n, e')" by (cases c)
  from Cons.prems have "entryAt (snd (viewInsert v a n (Some e'))) ks = Some e"
    by (simp add: entryAt_viewInsert)
  from Cons.IH [OF this] show ?case by (simp add: c)
qed

lemma inserted_entryAt:
  "(a, n, e) \<in> set (inserted v cs) \<Longrightarrow> entryAt (insertAll v cs) (addrPath a n) = Some e"
proof (induction cs arbitrary: v)
  case Nil
  then show ?case by simp
next
  case (Cons c cs)
  obtain a' n' e' where c: "c = (a', n', e')" by (cases c)
  let ?v' = "snd (viewInsert v a' n' (Some e'))"
  from Cons.prems c consider
    (here) "fst (viewInsert v a' n' (Some e')) = None" "(a, n, e) = (a', n', e')"
    | (later) "(a, n, e) \<in> set (inserted ?v' cs)"
    by (auto split: if_splits)
  then show ?case
  proof cases
    case here
    then have "entryAt v (addrPath a n) = None"
      by (auto simp: viewInsert_err split: if_splits)
    with here have "entryAt ?v' (addrPath a n) = Some e"
      by (simp add: entryAt_viewInsert)
    then show ?thesis
      by (simp add: c entryAt_insertAll_keeps)
  next
    case later
    from Cons.IH [OF this] show ?thesis by (simp add: c)
  qed
qed

lemma entryAt_insertAll_origin:
  "entryAt (insertAll v cs) ks = Some e \<Longrightarrow>
   entryAt v ks = Some e \<or> (\<exists>a n. (a, n, e) \<in> set (inserted v cs) \<and> ks = addrPath a n)"
proof (induction cs arbitrary: v)
  case Nil
  then show ?case by simp
next
  case (Cons c cs)
  obtain a' n' e' where c: "c = (a', n', e')" by (cases c)
  let ?v' = "snd (viewInsert v a' n' (Some e'))"
  from Cons.prems have "entryAt (insertAll ?v' cs) ks = Some e" by (simp add: c)
  from Cons.IH [OF this] consider
    (mid) "entryAt ?v' ks = Some e"
    | (later) a n where "(a, n, e) \<in> set (inserted ?v' cs)" "ks = addrPath a n"
    by blast
  then show ?case
  proof cases
    case mid
    show ?thesis
    proof (cases "entryAt v ks = Some e")
      case True
      then show ?thesis by simp
    next
      case False
      with mid have "ks = addrPath a' n'" "entryAt v ks = None" "e' = e"
        by (auto simp: entryAt_viewInsert split: if_splits)
      then have "(a', n', e) \<in> set (inserted v (c # cs))"
        by (simp add: c viewInsert_err)
      with \<open>ks = addrPath a' n'\<close> show ?thesis by blast
    qed
  next
    case later
    then have "(a, n, e) \<in> set (inserted v (c # cs))" by (simp add: c)
    with later show ?thesis by blast
  qed
qed

lemma entryAt_New [simp]: "entryAt New ks = None"
  by (simp add: entryAt_def New_def)

lemma addrPath_eq_iff:
  assumes "0 \<le> n" "n \<le> 32"
  shows "addrPath a n = pathFrom A 0 (nat n) \<longleftrightarrow> prefixMatch a n A"
proof -
  have "addrPath a n = pathFrom A 0 (nat n) \<longleftrightarrow> (\<forall>j < nat n. dirAt a j = dirAt A j)"
    by (auto simp: addrPath_def pathFrom_def)
  also have "\<dots> \<longleftrightarrow> (\<forall>j < nat n. bit a (31 - j) = bit A (31 - j))"
    using assms by (auto simp: dirAt_bit)
  also have "\<dots> \<longleftrightarrow> (\<forall>k. bit a (32 - nat n + k) = bit A (32 - nat n + k))"
  proof
    assume L: "\<forall>j < nat n. bit a (31 - j) = bit A (31 - j)"
    show "\<forall>k. bit a (32 - nat n + k) = bit A (32 - nat n + k)"
    proof
      fix k
      show "bit a (32 - nat n + k) = bit A (32 - nat n + k)"
      proof (cases "k < nat n")
        case True
        with assms have "31 - (nat n - 1 - k) = 32 - nat n + k" "nat n - 1 - k < nat n" by arith+
        with L show ?thesis by metis
      next
        case False
        then have "32 \<le> 32 - nat n + k" by arith
        then have "\<not> bit a (32 - nat n + k)" "\<not> bit A (32 - nat n + k)"
          by (auto dest: bit_imp_le_length)
        then show ?thesis by simp
      qed
    qed
  next
    assume R: "\<forall>k. bit a (32 - nat n + k) = bit A (32 - nat n + k)"
    show "\<forall>j < nat n. bit a (31 - j) = bit A (31 - j)"
    proof (intro allI impI)
      fix j assume "j < nat n"
      with assms have "31 - j = 32 - nat n + (nat n - 1 - j)" by arith
      with R show "bit a (31 - j) = bit A (31 - j)" by metis
    qed
  qed
  also have "\<dots> \<longleftrightarrow> prefixMatch a n A"
  proof -
    have high: "bit a (32 - nat n + k) = bit A (32 - nat n + k)" if "32 \<le> k" for k
    proof -
      from that have "32 \<le> 32 - nat n + k" by arith
      then have "\<not> bit a (32 - nat n + k)" "\<not> bit A (32 - nat n + k)"
        by (auto dest: bit_imp_le_length)
      then show ?thesis by simp
    qed
    have "prefixMatch a n A \<longleftrightarrow> (\<forall>k<32. bit a (32 - nat n + k) = bit A (32 - nat n + k))"
      unfolding prefixMatch_def by (subst bit_eq_iff) (simp add: bit_drop_bit_eq)
    also have "\<dots> \<longleftrightarrow> (\<forall>k. bit a (32 - nat n + k) = bit A (32 - nat n + k))"
      using high by (metis not_le)
    finally show ?thesis by simp
  qed
  finally show ?thesis .
qed

lemma viewLookup_entryAt_none:
  "(\<And>m. entryAt v (pathFrom A 0 m) = None) \<Longrightarrow> viewLookup v A = None"
  using viewLookup_loop_none [of "Some (root v)" A 0 None]
  by (simp add: viewLookup_def entryAt_def topBit_0)

lemma viewLookup_entryAt_last:
  "entryAt v (pathFrom A 0 n) = Some e \<Longrightarrow>
   (\<And>m. n < m \<Longrightarrow> entryAt v (pathFrom A 0 m) = None) \<Longrightarrow> viewLookup v A = Some e"
  using viewLookup_loop_last [of "Some (root v)" A 0 n e None]
  by (simp add: viewLookup_def entryAt_def topBit_0)

lemma inserted_subset: "set (inserted v cs) \<subseteq> set cs"
  by (induction v cs rule: inserted.induct) auto

lemma longest_match_found:
  assumes range: "\<forall>(a, n, e) \<in> set cs. 0 \<le> n \<and> n \<le> 32"
    and mem: "(a, n, e) \<in> set (inserted New cs)"
    and match: "prefixMatch a n A"
    and best: "\<forall>(a', n', e') \<in> set (inserted New cs). prefixMatch a' n' A \<longrightarrow> n' \<le> n"
  shows "viewLookup (insertAll New cs) A = Some e"
proof (rule viewLookup_entryAt_last)
  from mem inserted_subset range have n: "0 \<le> n" "n \<le> 32" by fastforce+
  from inserted_entryAt [OF mem] addrPath_eq_iff [OF n, of a A] match
  show "entryAt (insertAll New cs) (pathFrom A 0 (nat n)) = Some e" by simp
next
  fix m assume m: "nat n < m"
  show "entryAt (insertAll New cs) (pathFrom A 0 m) = None"
  proof (rule ccontr)
    assume "entryAt (insertAll New cs) (pathFrom A 0 m) \<noteq> None"
    then obtain e' where "entryAt (insertAll New cs) (pathFrom A 0 m) = Some e'" by blast
    from entryAt_insertAll_origin [OF this]
    obtain a' n' where mem': "(a', n', e') \<in> set (inserted New cs)"
      and path: "pathFrom A 0 m = addrPath a' n'" by auto
    from mem' inserted_subset range have n': "0 \<le> n'" "n' \<le> 32" by fastforce+
    from path have len: "m = nat n'"
      by (metis addrPath_def length_pathFrom)
    with path addrPath_eq_iff [OF n', of a' A] have "prefixMatch a' n' A" by simp
    with best mem' have "n' \<le> n" by blast
    with len m show False by arith
  qed
qed

lemma longest_match_none:
  assumes range: "\<forall>(a, n, e) \<in> set cs. 0 \<le> n \<and> n \<le> 32"
    and none: "\<forall>(a, n, e) \<in> set (inserted New cs). \<not> prefixMatch a n A"
  shows "viewLookup (insertAll New cs) A = None"
proof (rule viewLookup_entryAt_none)
  fix m
  show "entryAt (insertAll New cs) (pathFrom A 0 m) = None"
  proof (rule ccontr)
    assume "entryAt (insertAll New cs) (pathFrom A 0 m) \<noteq> None"
    then obtain e' where "entryAt (insertAll New cs) (pathFrom A 0 m) = Some e'" by blast
    from entryAt_insertAll_origin [OF this]
    obtain a' n' where mem': "(a', n', e') \<in> set (inserted New cs)"
      and path: "pathFrom A 0 m = addrPath a' n'" by auto
    from mem' inserted_subset range have n': "0 \<le> n'" "n' \<le> 32" by fastforce+
    from path have len: "m = nat n'"
      by (metis addrPath_def length_pathFrom)
    with path addrPath_eq_iff [OF n', of a' A] have "prefixMatch a' n' A" by simp
    with none mem' show False by blast
  qed
qed

lemma addrPath_eq_prefixKey:
  assumes "0 \<le> n" "n \<le> 32" "0 \<le> n'" "n' \<le> 32"
  shows "addrPath a n = addrPath a' n' \<longleftrightarrow> prefixKey (a, n, e) = prefixKey (a', n', e')"
proof (cases "n = n'")
  case True
  with addrPath_eq_iff [OF assms(1,2), of a a'] show ?thesis
    by (simp add: prefixKey_def prefixMatch_def addrPath_def)
next
  case False
  with assms have "length (addrPath a n) \<noteq> length (addrPath a' n')"
    by (simp add: addrPath_def)
  then have "addrPath a n \<noteq> addrPath a' n'" by metis
  with False show ?thesis by (simp add: prefixKey_def)
qed

lemma inserted_dup_iff:
  "fst (viewInsert (insertAll New cs) a n info) = Some errDupNet \<longleftrightarrow>
     (\<exists>(a', n', e') \<in> set (inserted New cs). addrPath a' n' = addrPath a n)"
proof -
  have "entryAt (insertAll New cs) (addrPath a n) \<noteq> None \<longleftrightarrow>
     (\<exists>(a', n', e') \<in> set (inserted New cs). addrPath a' n' = addrPath a n)"
  proof
    assume "entryAt (insertAll New cs) (addrPath a n) \<noteq> None"
    then obtain e where "entryAt (insertAll New cs) (addrPath a n) = Some e" by blast
    from entryAt_insertAll_origin [OF this]
    show "\<exists>(a', n', e') \<in> set (inserted New cs). addrPath a' n' = addrPath a n" by fastforce
  next
    assume "\<exists>(a', n', e') \<in> set (inserted New cs). addrPath a' n' = addrPath a n"
    then obtain a' n' e' where "(a', n', e') \<in> set (inserted New cs)" "addrPath a' n' = addrPath a n"
      by blast
    with inserted_entryAt [of a' n' e' New cs]
    show "entryAt (insertAll New cs) (addrPath a n) \<noteq> None" by simp
  qed
  then show ?thesis by (simp add: viewInsert_err)
qed

lemma inserted_append:
  "inserted v (cs @ ds) = inserted v cs @ inserted (insertAll v cs) ds"
  by (induction v cs rule: inserted.induct) auto

lemma insertAll_append: "insertAll v (cs @ ds) = insertAll (insertAll v cs) ds"
  by (induction v cs rule: insertAll.induct) auto

lemma inserted_all:
  assumes "\<forall>(a, n, e) \<in> set cs. 0 \<le> n \<and> n \<le> 32" "distinct (map prefixKey cs)"
  shows "inserted New cs = cs"
  using assms
proof (induction cs rule: rev_induct)
  case Nil
  then show ?case by simp
next
  case (snoc c cs)
  obtain a n e where c: "c = (a, n, e)" by (cases c)
  from snoc.prems have range: "\<forall>(a, n, e) \<in> set cs. 0 \<le> n \<and> n \<le> 32"
    and n: "0 \<le> n" "n \<le> 32" and dist: "distinct (map prefixKey cs)"
    and new: "prefixKey (a, n, e) \<notin> prefixKey ` set cs"
    by (auto simp: c)
  from snoc.IH [OF range dist] have IH: "inserted New cs = cs" .
  have "fst (viewInsert (insertAll New cs) a n (Some e)) \<noteq> Some errDupNet"
  proof
    assume "fst (viewInsert (insertAll New cs) a n (Some e)) = Some errDupNet"
    then obtain a' n' e' where mem: "(a', n', e') \<in> set cs" and p: "addrPath a' n' = addrPath a n"
      unfolding inserted_dup_iff IH by blast
    from mem range have "0 \<le> n'" "n' \<le> 32" by fastforce+
    from addrPath_eq_prefixKey [OF this n, of a' a e' e] p
    have "prefixKey (a', n', e') = prefixKey (a, n, e)" by simp
    with mem new show False by (metis imageI)
  qed
  then have "fst (viewInsert (insertAll New cs) a n (Some e)) = None"
    by (simp add: viewInsert_err split: if_splits)
  then show ?case
    by (simp add: inserted_append IH c)
qed

lemma viewLookup_loop_Some_info:
  "viewLookup_loop p a b (Some x) \<noteq> None"
  by (induction p a b "Some x" arbitrary: x rule: viewLookup_loop.induct) auto

lemma viewLookup_loop_found:
  "vinfoAt p (pathFrom a i n) = Some e \<Longrightarrow> viewLookup_loop p a (topBit i) info \<noteq> None"
proof (induction p a "topBit i" info arbitrary: i n rule: viewLookup_loop.induct)
  case (1 a info)
  then show ?case by simp
next
  case (2 l r vi a info)
  show ?case
  proof (cases n)
    case 0
    with "2.prems" have "vi = Some e" by simp
    then show ?thesis by (simp add: viewLookup_loop_Some_info)
  next
    case (Suc n')
    with "2.prems" have "vinfoAt (if goRight a (topBit i) then r else l) (pathFrom a (Suc i) n') = Some e"
      by (simp add: pathFrom_Suc dirAt_def)
    from "2.hyps" [OF topBit_Suc this] show ?thesis
      by (simp add: topBit_Suc)
  qed
qed

lemma viewLookup_entryAt_found:
  "entryAt v (pathFrom A 0 n) = Some e \<Longrightarrow> viewLookup v A \<noteq> None"
  using viewLookup_loop_found [of "Some (root v)" A 0 n e None]
  by (simp add: viewLookup_def entryAt_def topBit_0)

lemma call_covered:
  "(a, n, e) \<in> set cs \<Longrightarrow> entryAt (insertAll v cs) (addrPath a n) \<noteq> None"
proof (induction cs arbitrary: v)
  case Nil
  then show ?case by simp
next
  case (Cons c cs)
  obtain a' n' e' where c: "c = (a', n', e')" by (cases c)
  let ?v' = "snd (viewInsert v a' n' (Some e'))"
  show ?case
  proof (cases "(a, n, e) = (a', n', e')")
    case True
    then have "entryAt ?v' (addrPath a n) \<noteq> None"
      by (auto simp: entryAt_viewInsert)
    then obtain x where "entryAt ?v' (addrPath a n) = Some x" by blast
    from entryAt_insertAll_keeps [OF this] show ?thesis by (simp add: c)
  next
    case False
    with Cons.prems c have "(a, n, e) \<in> set cs" by auto
    from Cons.IH [OF this] show ?thesis by (simp add: c)
  qed
qed

lemma longest_match_none_iff:
  assumes range: "\<forall>(a, n, e) \<in> set cs. 0 \<le> n \<and> n \<le> 32"
  shows "viewLookup (insertAll New cs) A = None \<longleftrightarrow> (\<forall>(a, n, e) \<in> set cs. \<not> prefixMatch a n A)"
proof
  assume none: "viewLookup (insertAll New cs) A = None"
  show "\<forall>(a, n, e) \<in> set cs. \<not> prefixMatch a n A"
  proof (clarify)
    fix a n e assume mem: "(a, n, e) \<in> set cs" and match: "prefixMatch a n A"
    from mem range have n: "0 \<le> n" "n \<le> 32" by fastforce+
    from call_covered [OF mem, of New] obtain x where "entryAt (insertAll New cs) (addrPath a n) = Some x"
      by blast
    with addrPath_eq_iff [OF n, of a A] match
    have "entryAt (insertAll New cs) (pathFrom A 0 (nat n)) = Some x" by simp
    from viewLookup_entryAt_found [OF this] none show False by simp
  qed
next
  assume "\<forall>(a, n, e) \<in> set cs. \<not> prefixMatch a n A"
  with inserted_subset [of New cs] have "\<forall>(a, n, e) \<in> set (inserted New cs). \<not> prefixMatch a n A"
    by blast
  from longest_match_none [OF range this] show "viewLookup (insertAll New cs) A = None" .
qed

section \<open>The depth of the trie\<close>

lemma viewLookup_visits_le_height: "viewLookup_visits p a b \<le> height p"
  by (induction p a b rule: viewLookup_visits.induct) auto

lemma viewLookup_bounded_enough:
  "viewLookup_visits p a b \<le> k \<Longrightarrow> viewLookup_bounded k p a b info = Some (viewLookup_loop p a b info)"
proof (induction p a b info arbitrary: k rule: viewLookup_loop.induct)
  case (1 a b info)
  then show ?case by simp
next
  case (2 l r vi a b info)
  then obtain k' where k: "k = Suc k'" by (cases k) auto
  with "2.prems" have "viewLookup_visits (if goRight a b then r else l) a (drop_bit 1 b) \<le> k'" by simp
  from "2.IH" [OF this] show ?case by (simp add: k)
qed

lemma height_Some: "height (Some node) = Suc (max (height (left node)) (height (right node)))"
  by (cases node) simp

lemma height_setChild:
  "height (Some (setChild node a b c)) \<le> max (height (Some node)) (Suc (height (Some c)))"
  by (cases node) (auto simp: setChild_def)

lemma height_setVinfo [simp]: "height (Some (setVinfo node info)) = height (Some node)"
  by (cases node) (simp add: setVinfo_def)

lemma height_emptyNode [simp]: "height (Some emptyNode) = 1"
  by (simp add: emptyNode_def)

lemma height_create_empty:
  "height (Some (viewInsert_create emptyNode a b msk info)) = Suc (nat msk)"
proof (induction "nat msk" arbitrary: msk b)
  case 0
  then show ?case by (subst viewInsert_create.simps) simp
next
  case (Suc n)
  then have pos: "0 < msk" and n: "n = nat (msk - 1)" by arith+
  from Suc.hyps(1) [OF n, of "drop_bit 1 b"] pos Suc.hyps(2) show ?case
    by (subst viewInsert_create.simps) (simp add: setChild_def emptyNode_def)
qed

lemma height_create:
  "height (Some (viewInsert_create node a b msk info)) \<le> max (height (Some node)) (Suc (nat msk))"
proof (cases "0 < msk")
  case False
  then show ?thesis by (subst viewInsert_create.simps) simp
next
  case True
  then have "Suc (nat (msk - 1)) = nat msk" by arith
  with True height_setChild [of node a b "viewInsert_create emptyNode a (drop_bit 1 b) (msk - 1) info"]
  show ?thesis
    by (subst viewInsert_create.simps) (simp add: height_create_empty)
qed

lemma height_walk:
  "height (Some (snd (viewInsert_walk node a b msk info))) \<le> max (height (Some node)) (Suc (nat msk))"
proof (induction node a b msk info rule: viewInsert_walk.induct)
  case (1 node a b msk info)
  show ?case
  proof (cases "0 < msk")
    case False
    then show ?thesis by (subst viewInsert_walk.simps) simp
  next
    case True
    then have m: "Suc (nat (msk - 1)) = nat msk" by arith
    show ?thesis
    proof (cases "child node a b")
      case None
      with True height_create [of node a b msk info] show ?thesis
        by (subst viewInsert_walk.simps) simp
    next
      case (Some c)
      have step: "viewInsert_walk node a b msk info =
        (fst (viewInsert_walk c a (drop_bit 1 b) (msk - 1) info),
         setChild node a b (snd (viewInsert_walk c a (drop_bit 1 b) (msk - 1) info)))"
        using True Some by (subst viewInsert_walk.simps) (simp split: prod.splits)
      from Some have c: "Suc (height (Some c)) \<le> height (Some node)"
        by (cases node) (auto simp: child_def split: if_splits)
      from "1.IH" [OF True Some] m c
        height_setChild [of node a b "snd (viewInsert_walk c a (drop_bit 1 b) (msk - 1) info)"]
      show ?thesis unfolding step by simp
    qed
  qed
qed

lemma height_viewInsert:
  "height (Some (root (snd (viewInsert v a n info)))) \<le> max (height (Some (root v))) (Suc (nat n))"
  using height_walk [of "root v" a "topBit 0" n info] by (simp add: root_viewInsert)

lemma height_insertAll:
  "\<forall>(a, n, e) \<in> set cs. n \<le> 32 \<Longrightarrow> height (Some (root v)) \<le> 33 \<Longrightarrow>
   height (Some (root (insertAll v cs))) \<le> 33"
proof (induction cs arbitrary: v)
  case Nil
  then show ?case by simp
next
  case (Cons c cs)
  obtain a n e where c: "c = (a, n, e)" by (cases c)
  with Cons.prems have "n \<le> 32" by simp
  with Cons.prems(2) height_viewInsert [of v a n "Some e"]
  have "height (Some (root (snd (viewInsert v a n (Some e))))) \<le> 33" by simp
  with Cons.IH [of "snd (viewInsert v a n (Some e))"] Cons.prems(1) show ?case
    by (simp add: c)
qed

section \<open>The codec\<close>

lemma bigEndianUint32_bytes:
  "ucast (drop_bit 24 (bigEndianUint32 b0 b1 b2 b3)) = b0"
  "ucast (drop_bit 16 (bigEndianUint32 b0 b1 b2 b3)) = b1"
  "ucast (drop_bit 8 (bigEndianUint32 b0 b1 b2 b3)) = b2"
  "ucast (bigEndianUint32 b0 b1 b2 b3) = b3"
  unfolding bigEndianUint32_def
  by (rule bit_word_eqI; auto simp: bit_simps dest: bit_imp_le_length)+

lemma bigEndianUint32_sum:
  "bigEndianUint32 b0 b1 b2 b3 =
     push_bit 24 (ucast b0) + push_bit 16 (ucast b1) + push_bit 8 (ucast b2) + ucast b3"
proof -
  have d1: "(ucast b3 :: u32) OR push_bit 8 (ucast b2) = ucast b3 + push_bit 8 (ucast b2)"
    by (rule disjunctive_add [symmetric]) (auto simp: bit_simps dest: bit_imp_le_length)
  have d2: "(ucast b3 :: u32) OR push_bit 8 (ucast b2) OR push_bit 16 (ucast b1)
      = (ucast b3 OR push_bit 8 (ucast b2)) + push_bit 16 (ucast b1)"
    unfolding or.assoc [symmetric]
    by (rule disjunctive_add [symmetric]) (auto simp: bit_simps dest: bit_imp_le_length)
  have d3: "(ucast b3 :: u32) OR push_bit 8 (ucast b2) OR push_bit 16 (ucast b1) OR push_bit 24 (ucast b0)
      = (ucast b3 OR push_bit 8 (ucast b2) OR push_bit 16 (ucast b1)) + push_bit 24 (ucast b0)"
    unfolding or.assoc [symmetric]
    by (rule disjunctive_add [symmetric]) (auto simp: bit_simps dest: bit_imp_le_length)
  show ?thesis
    unfolding bigEndianUint32_def d3 d2 d1 by simp
qed

lemma unat_bigEndianUint32:
  "unat (bigEndianUint32 b0 b1 b2 b3) = unat b0 * 2 ^ 24 + unat b1 * 2 ^ 16 + unat b2 * 2 ^ 8 + unat b3"
proof -
  define N where "N = unat b0 * 2 ^ 24 + unat b1 * 2 ^ 16 + unat b2 * 2 ^ 8 + unat b3"
  have b: "unat b0 < 256" "unat b1 < 256" "unat b2 < 256" "unat b3 < 256"
    using unsigned_less [of b0] unsigned_less [of b1] unsigned_less [of b2] unsigned_less [of b3]
    by simp_all
  then have small: "N < 2 ^ 32"
    by (simp add: N_def)
  have "bigEndianUint32 b0 b1 b2 b3 = word_of_nat N"
    unfolding bigEndianUint32_sum N_def
    by (simp add: push_bit_eq_mult)
  then have "unat (bigEndianUint32 b0 b1 b2 b3) = N mod 2 ^ 32"
    by (simp only: unat_of_nat) simp
  with small show ?thesis
    by (simp add: N_def)
qed

section \<open>Evaluation and the parsers\<close>

lemmas trie_eval = viewInsert_def viewInsert_walk.simps viewInsert_create.simps child_def
  goRight_def setChild_def setVinfo_def emptyNode_def New_def viewLookup_def

lemma two_inserts_distinct_paths:
  assumes "addrPath a1 n1 \<noteq> addrPath a2 n2"
  shows "fst (viewInsert New a1 n1 (Some e1)) = None"
    and "fst (viewInsert (snd (viewInsert New a1 n1 (Some e1))) a2 n2 (Some e2)) = None"
    and "entryAt (snd (viewInsert (snd (viewInsert New a1 n1 (Some e1))) a2 n2 (Some e2))) (addrPath a1 n1) = Some e1"
    and "entryAt (snd (viewInsert (snd (viewInsert New a1 n1 (Some e1))) a2 n2 (Some e2))) (addrPath a2 n2) = Some e2"
  using assms by (auto simp: viewInsert_err entryAt_viewInsert)

lemma parseOctets_Some:
  "parseOctets [f0, f1, f2, f3] = Some q \<longleftrightarrow>
     (\<exists>n0 n1 n2 n3. Atoi f0 = Some n0 \<and> Atoi f1 = Some n1 \<and> Atoi f2 = Some n2 \<and> Atoi f3 = Some n3
        \<and> q = (word_of_int n0, word_of_int n1, word_of_int n2, word_of_int n3))"
  by (auto simp: parseOctets_def split: option.splits)

lemma parseOctets_None:
  "length ipfs = 4 \<Longrightarrow> parseOctets ipfs = None \<longleftrightarrow> (\<exists>f \<in> set ipfs. Atoi f = None)"
proof -
  assume "length ipfs = 4"
  then obtain f0 f1 f2 f3 where "ipfs = [f0, f1, f2, f3]"
    by (auto simp: length_Suc_conv numeral_eq_Suc)
  then show ?thesis
    by (auto simp: parseOctets_def split: option.splits)
qed

lemma parseAddr_None:
  "parseAddr addr = None \<longleftrightarrow>
     length (bytesSplit addr (CHR ''.'')) \<noteq> 4 \<or> (\<exists>f \<in> set (bytesSplit addr (CHR ''.'')). Atoi f = None)"
  using parseOctets_None [of "bytesSplit addr (CHR ''.'')"]
  by (auto simp: parseAddr_def Let_def split: option.splits)


lemma longest_match_exists:
  assumes range: "\<forall>(a, n, e) \<in> set cs. 0 \<le> n \<and> n \<le> 32"
    and some: "\<exists>(a, n, e) \<in> set cs. prefixMatch a n A"
  shows "\<exists>(a, n, e) \<in> set (inserted New cs).
           prefixMatch a n A \<and> (\<forall>(a', n', e') \<in> set cs. prefixMatch a' n' A \<longrightarrow> n' \<le> n)
           \<and> viewLookup (insertAll New cs) A = Some e"
proof -
  define N where "N = (\<lambda>(a, n, e). n) ` {c \<in> set cs. case c of (a, n, e) \<Rightarrow> prefixMatch a n A}"
  have fin: "finite N" by (simp add: N_def)
  from some have ne: "N \<noteq> {}" by (auto simp: N_def)
  from Max_in [OF fin ne] obtain a e where mem: "(a, Max N, e) \<in> set cs"
    and match: "prefixMatch a (Max N) A"
    by (auto simp: N_def)
  have best: "\<forall>(a', n', e') \<in> set cs. prefixMatch a' n' A \<longrightarrow> n' \<le> Max N"
  proof (clarify)
    fix a' n' e' assume "(a', n', e') \<in> set cs" "prefixMatch a' n' A"
    then have "n' \<in> N" by (force simp: N_def)
    with fin show "n' \<le> Max N" by simp
  qed
  from mem range have n: "0 \<le> Max N" "Max N \<le> 32" by fastforce+
  from call_covered [OF mem, of New] obtain x where x: "entryAt (insertAll New cs) (addrPath a (Max N)) = Some x"
    by blast
  from entryAt_insertAll_origin [OF x] obtain a' n' where mem': "(a', n', x) \<in> set (inserted New cs)"
    and path: "addrPath a (Max N) = addrPath a' n'" by auto
  from mem' inserted_subset [of New cs] range have n': "0 \<le> n'" "n' \<le> 32" by fastforce+
  from path have "nat (Max N) = nat n'"
    by (metis addrPath_def length_pathFrom)
  with n n' have eq: "n' = Max N" by simp
  from match addrPath_eq_iff [OF n, of a A] path have "addrPath a' n' = pathFrom A 0 (nat (Max N))"
    by simp
  with addrPath_eq_iff [OF n', of a' A] eq have match': "prefixMatch a' n' A" by simp
  from best eq have best': "\<forall>(a'', n'', e'') \<in> set cs. prefixMatch a'' n'' A \<longrightarrow> n'' \<le> n'" by simp
  with inserted_subset [of New cs]
  have "\<forall>(a'', n'', e'') \<in> set (inserted New cs). prefixMatch a'' n'' A \<longrightarrow> n'' \<le> n'" by blast
  from longest_match_found [OF range mem' match' this]
  have "viewLookup (insertAll New cs) A = Some x" .
  with mem' match' best' show ?thesis by blast
qed

lemma viewSubnet_example:
  "Lookup (snd (viewSubnet New ''256.0.0.1/32'' ar)) ''0.0.0.1''
     = (Some \<lparr>area = ar, subnet = ''256.0.0.1/32''\<rparr>, None)"
proof -
  have p: "parseAddr ''0.0.0.1'' = Some 1" by code_simp
  have s: "viewSubnet New ''256.0.0.1/32'' ar
      = (None, snd (viewInsert New 1 32 (Some \<lparr>area = ar, subnet = ''256.0.0.1/32''\<rparr>)))"
    by (simp add: viewSubnet_def parseOctets_def Atoi_def isDigit_def decimal_def digitVal_def
        intSize_def bigEndianUint32_def)
  show ?thesis
    unfolding s by (simp add: Lookup_def p trie_eval)
qed

lemma insertAll_two:
  "insertAll New [(a1, n1, e1), (a2, n2, e2)]
     = snd (viewInsert (snd (viewInsert New a1 n1 (Some e1))) a2 n2 (Some e2))"
  by simp

lemma inserted_two:
  assumes "addrPath a1 n1 \<noteq> addrPath a2 n2"
  shows "inserted New [(a1, n1, e1), (a2, n2, e2)] = [(a1, n1, e1), (a2, n2, e2)]"
  using two_inserts_distinct_paths(1,2) [OF assms] by simp

lemma strict_prefix_addrPath:
  assumes "strict_prefix (addrPath a1 n1) (addrPath a2 n2)" "0 \<le> n1" "0 \<le> n2"
  shows "n1 < n2"
proof -
  from assms(1) have "length (addrPath a1 n1) < length (addrPath a2 n2)"
    by (rule prefix_length_less)
  with assms(2,3) show ?thesis by (simp add: addrPath_def)
qed

lemma nested_lookup:
  assumes nest: "strict_prefix (addrPath a1 n1) (addrPath a2 n2) \<or> strict_prefix (addrPath a2 n2) (addrPath a1 n1)"
    and r: "0 \<le> n1" "n1 \<le> 32" "0 \<le> n2" "n2 \<le> 32"
  shows "viewLookup (snd (viewInsert (snd (viewInsert New a1 n1 (Some e1))) a2 n2 (Some e2))) A =
     (if prefixMatch a1 n1 A \<and> prefixMatch a2 n2 A then (if n1 < n2 then Some e2 else Some e1)
      else if prefixMatch a1 n1 A then Some e1
      else if prefixMatch a2 n2 A then Some e2
      else None)"
proof -
  let ?cs = "[(a1, n1, e1), (a2, n2, e2)]"
  from nest have ne: "addrPath a1 n1 \<noteq> addrPath a2 n2" by auto
  from nest r have nn: "n1 \<noteq> n2"
    using strict_prefix_addrPath [of a1 n1 a2 n2] strict_prefix_addrPath [of a2 n2 a1 n1] by auto
  have range: "\<forall>(a, n, e) \<in> set ?cs. 0 \<le> n \<and> n \<le> 32" using r by simp
  note ins = inserted_two [OF ne, of e1 e2]
  have found: "viewLookup (insertAll New ?cs) A = Some e"
    if "(a, n, e) \<in> set ?cs" "prefixMatch a n A"
      "\<forall>(a', n', e') \<in> set ?cs. prefixMatch a' n' A \<longrightarrow> n' \<le> n" for a n e
    using longest_match_found [OF range, of a n e A] that unfolding ins by blast
  have none: "viewLookup (insertAll New ?cs) A = None"
    if "\<not> prefixMatch a1 n1 A" "\<not> prefixMatch a2 n2 A"
    using longest_match_none [OF range, of A] that unfolding ins by simp
  show ?thesis
    unfolding insertAll_two [symmetric]
  proof (cases "prefixMatch a1 n1 A"; cases "prefixMatch a2 n2 A")
    assume m: "prefixMatch a1 n1 A" "prefixMatch a2 n2 A"
    show "viewLookup (insertAll New ?cs) A =
     (if prefixMatch a1 n1 A \<and> prefixMatch a2 n2 A then (if n1 < n2 then Some e2 else Some e1)
      else if prefixMatch a1 n1 A then Some e1
      else if prefixMatch a2 n2 A then Some e2
      else None)"
    proof (cases "n1 < n2")
      case True
      with m found [of a2 n2 e2] show ?thesis by simp
    next
      case False
      with nn m found [of a1 n1 e1] show ?thesis by simp
    qed
  next
    assume m: "prefixMatch a1 n1 A" "\<not> prefixMatch a2 n2 A"
    with found [of a1 n1 e1] show "viewLookup (insertAll New ?cs) A =
     (if prefixMatch a1 n1 A \<and> prefixMatch a2 n2 A then (if n1 < n2 then Some e2 else Some e1)
      else if prefixMatch a1 n1 A then Some e1
      else if prefixMatch a2 n2 A then Some e2
      else None)" by simp
  next
    assume m: "\<not> prefixMatch a1 n1 A" "prefixMatch a2 n2 A"
    with found [of a2 n2 e2] show "viewLookup (insertAll New ?cs) A =
     (if prefixMatch a1 n1 A \<and> prefixMatch a2 n2 A then (if n1 < n2 then Some e2 else Some e1)
      else if prefixMatch a1 n1 A then Some e1
      else if prefixMatch a2 n2 A then Some e2
      else None)" by simp
  next
    assume m: "\<not> prefixMatch a1 n1 A" "\<not> prefixMatch a2 n2 A"
    with none show "viewLookup (insertAll New ?cs) A =
     (if prefixMatch a1 n1 A \<and> prefixMatch a2 n2 A then (if n1 < n2 then Some e2 else Some e1)
      else if prefixMatch a1 n1 A then Some e1
      else if prefixMatch a2 n2 A then Some e2
      else None)" by simp
  qed
qed

section \<open>The claims\<close>

text \<open>
  Claim C1 (longest match), as amended. Let the trie be built from \<^term>\<open>New\<close> by a sequence
  \<open>cs\<close> of \<^verbatim>\<open>viewInsert\<close> calls that are pairwise distinct as prefixes (the prefix length and
  that many leading bits of the address) and whose prefix lengths lie in \<open>[0, 32]\<close>, and let
  \<open>A\<close> be any address. Then
  \<^item> for every call whose prefix contains \<open>A\<close> and whose length is greatest among all calls
    whose prefix contains \<open>A\<close>, the lookup of \<open>A\<close> returns the entry of that call;
  \<^item> when some call's prefix contains \<open>A\<close>, there is such a call;
  \<^item> the lookup returns \<^verbatim>\<open>nil\<close> exactly when no call's prefix contains \<open>A\<close>;
  \<^item> every call of the sequence returns \<^verbatim>\<open>nil\<close>.
\<close>

theorem viewLookup_longest_match:
  assumes "distinct (map prefixKey cs)"
    and "\<forall>(a, n, e) \<in> set cs. 0 \<le> n \<and> n \<le> 32"
  shows "(\<forall>(a, n, e) \<in> set cs.
            prefixMatch a n A \<and> (\<forall>(a', n', e') \<in> set cs. prefixMatch a' n' A \<longrightarrow> n' \<le> n)
            \<longrightarrow> viewLookup (insertAll New cs) A = Some e)
       \<and> ((\<exists>(a, n, e) \<in> set cs. prefixMatch a n A) \<longrightarrow>
            (\<exists>(a, n, e) \<in> set cs.
               prefixMatch a n A \<and> (\<forall>(a', n', e') \<in> set cs. prefixMatch a' n' A \<longrightarrow> n' \<le> n)
               \<and> viewLookup (insertAll New cs) A = Some e))
       \<and> (viewLookup (insertAll New cs) A = None \<longleftrightarrow> (\<forall>(a, n, e) \<in> set cs. \<not> prefixMatch a n A))
       \<and> inserted New cs = cs"
proof -
  from inserted_all [OF assms(2,1)] have ins: "inserted New cs = cs" .
  show ?thesis
  proof (intro conjI)
    show "\<forall>(a, n, e) \<in> set cs.
            prefixMatch a n A \<and> (\<forall>(a', n', e') \<in> set cs. prefixMatch a' n' A \<longrightarrow> n' \<le> n)
            \<longrightarrow> viewLookup (insertAll New cs) A = Some e"
    proof (clarify)
      fix a n e
      assume mem: "(a, n, e) \<in> set cs" and match: "prefixMatch a n A"
        and best: "\<forall>(a', n', e') \<in> set cs. prefixMatch a' n' A \<longrightarrow> n' \<le> n"
      from mem ins have mem': "(a, n, e) \<in> set (inserted New cs)" by simp
      from best ins
      have best': "\<forall>(a', n', e') \<in> set (inserted New cs). prefixMatch a' n' A \<longrightarrow> n' \<le> n" by simp
      from longest_match_found [OF assms(2) mem' match best']
      show "viewLookup (insertAll New cs) A = Some e" .
    qed
    show "(\<exists>(a, n, e) \<in> set cs. prefixMatch a n A) \<longrightarrow>
            (\<exists>(a, n, e) \<in> set cs.
               prefixMatch a n A \<and> (\<forall>(a', n', e') \<in> set cs. prefixMatch a' n' A \<longrightarrow> n' \<le> n)
               \<and> viewLookup (insertAll New cs) A = Some e)"
      using longest_match_exists [OF assms(2), of A] unfolding ins by blast
    show "viewLookup (insertAll New cs) A = None \<longleftrightarrow> (\<forall>(a, n, e) \<in> set cs. \<not> prefixMatch a n A)"
      by (rule longest_match_none_iff [OF assms(2)])
    show "inserted New cs = cs" by (rule ins)
  qed
qed

theorem viewLookup_longest_match_witness:
  "prefixKey (0x0A000000, 8, \<lparr>area = ''A'', subnet = ''10.0.0.0/8''\<rparr>)
     \<noteq> prefixKey (0x0A010000, 16, \<lparr>area = ''B'', subnet = ''10.1.0.0/16''\<rparr>)
   \<and> (0 :: int) \<le> 8 \<and> (8 :: int) \<le> 32 \<and> (0 :: int) \<le> 16 \<and> (16 :: int) \<le> 32
   \<and> viewLookup (insertAll New
     [(0x0A000000, 8, \<lparr>area = ''A'', subnet = ''10.0.0.0/8''\<rparr>),
      (0x0A010000, 16, \<lparr>area = ''B'', subnet = ''10.1.0.0/16''\<rparr>)]) 0x0A010203
     = Some \<lparr>area = ''B'', subnet = ''10.1.0.0/16''\<rparr>
   \<and> viewLookup (insertAll New
     [(0x0A000000, 8, \<lparr>area = ''A'', subnet = ''10.0.0.0/8''\<rparr>),
      (0x0A010000, 16, \<lparr>area = ''B'', subnet = ''10.1.0.0/16''\<rparr>)]) 0x0A020203
     = Some \<lparr>area = ''A'', subnet = ''10.0.0.0/8''\<rparr>
   \<and> viewLookup (insertAll New
     [(0x0A000000, 8, \<lparr>area = ''A'', subnet = ''10.0.0.0/8''\<rparr>),
      (0x0A010000, 16, \<lparr>area = ''B'', subnet = ''10.1.0.0/16''\<rparr>)]) 0x0B000000 = None"
proof -
  let ?cs = "[(0x0A000000 :: u32, 8 :: int, \<lparr>area = ''A'', subnet = ''10.0.0.0/8''\<rparr>),
      (0x0A010000, 16, \<lparr>area = ''B'', subnet = ''10.1.0.0/16''\<rparr>)]"
  have k: "prefixKey (0x0A000000, 8, \<lparr>area = ''A'', subnet = ''10.0.0.0/8''\<rparr>)
     \<noteq> prefixKey (0x0A010000, 16, \<lparr>area = ''B'', subnet = ''10.1.0.0/16''\<rparr>)"
    by (simp add: prefixKey_def)
  then have d: "distinct (map prefixKey ?cs)" by simp
  have r: "\<forall>(a, n, e) \<in> set ?cs. 0 \<le> n \<and> n \<le> 32" by simp
  have m: "prefixMatch 0x0A000000 8 0x0A010203" "prefixMatch 0x0A010000 16 0x0A010203"
    "prefixMatch 0x0A000000 8 0x0A020203" "\<not> prefixMatch 0x0A010000 16 0x0A020203"
    "\<not> prefixMatch 0x0A000000 8 0x0B000000" "\<not> prefixMatch 0x0A010000 16 0x0B000000"
    by (simp_all add: prefixMatch_def drop_bit_eq_div)
  from viewLookup_longest_match [OF d r, of "0x0A010203"]
    viewLookup_longest_match [OF d r, of "0x0A020203"]
    viewLookup_longest_match [OF d r, of "0x0B000000"]
  show ?thesis
    using k m by simp
qed

text \<open>
  Claim C1 as first stated asks only that the (address, prefix length) pairs be pairwise
  distinct. That is not enough: 10.0.0.0/8 and 10.0.0.255/8 are distinct pairs with the same
  eight leading bits, so the second call ends at the node of the first, finds
  \<^verbatim>\<open>node.vinfo != nil\<close> and returns \<^verbatim>\<open>errDupNet\<close>. Both prefixes contain 10.1.2.3 with the
  greatest length, and the lookup returns the entry of the first call, not of the second.
\<close>

theorem viewLookup_longest_match_counterexample:
  "(0x0A000000 :: u32, 8 :: int) \<noteq> (0x0A0000FF, 8)
   \<and> (0 :: int) \<le> 8 \<and> (8 :: int) \<le> 32
   \<and> prefixMatch 0x0A000000 8 0x0A010203
   \<and> prefixMatch 0x0A0000FF 8 0x0A010203
   \<and> fst (viewInsert (insertAll New [(0x0A000000, 8, \<lparr>area = ''a'', subnet = ''10.0.0.0/8''\<rparr>)])
          0x0A0000FF 8 (Some \<lparr>area = ''b'', subnet = ''10.0.0.255/8''\<rparr>)) = Some errDupNet
   \<and> viewLookup (insertAll New
        [(0x0A000000, 8, \<lparr>area = ''a'', subnet = ''10.0.0.0/8''\<rparr>),
         (0x0A0000FF, 8, \<lparr>area = ''b'', subnet = ''10.0.0.255/8''\<rparr>)]) 0x0A010203
       = Some \<lparr>area = ''a'', subnet = ''10.0.0.0/8''\<rparr>
   \<and> viewLookup (insertAll New
        [(0x0A000000, 8, \<lparr>area = ''a'', subnet = ''10.0.0.0/8''\<rparr>),
         (0x0A0000FF, 8, \<lparr>area = ''b'', subnet = ''10.0.0.255/8''\<rparr>)]) 0x0A010203
       \<noteq> Some \<lparr>area = ''b'', subnet = ''10.0.0.255/8''\<rparr>"
proof -
  have m: "prefixMatch 0x0A000000 8 0x0A010203" "prefixMatch 0x0A0000FF 8 0x0A010203"
    by (simp_all add: prefixMatch_def drop_bit_eq_div)
  have f: "fst (viewInsert (insertAll New [(0x0A000000, 8, \<lparr>area = ''a'', subnet = ''10.0.0.0/8''\<rparr>)])
          0x0A0000FF 8 (Some \<lparr>area = ''b'', subnet = ''10.0.0.255/8''\<rparr>)) = Some errDupNet"
    by code_simp
  have l: "viewLookup (insertAll New
        [(0x0A000000, 8, \<lparr>area = ''a'', subnet = ''10.0.0.0/8''\<rparr>),
         (0x0A0000FF, 8, \<lparr>area = ''b'', subnet = ''10.0.0.255/8''\<rparr>)]) 0x0A010203
       = Some \<lparr>area = ''a'', subnet = ''10.0.0.0/8''\<rparr>"
    by code_simp
  from m f l show ?thesis by simp
qed

text \<open>
  Claim C2 (default route). On a fresh trie an insertion with prefix length 0 returns \<^verbatim>\<open>nil\<close>
  and attaches its entry at the root, creating no node; after \<^verbatim>\<open>viewInsert(0, 0, e)\<close> alone
  the lookup of every address returns \<open>e\<close>.
\<close>

theorem viewInsert_default_route:
  "viewInsert New a 0 (Some e) = (None, New\<lparr>root := ViewNode None None (Some e)\<rparr>)
   \<and> (\<forall>A. viewLookup (snd (viewInsert New 0 0 (Some e))) A = Some e)"
  by (simp add: viewInsert_nonpos New_def emptyNode_def setVinfo_def viewLookup_def)

text \<open>
  Claim C3 (duplicate rejection). \<^verbatim>\<open>viewInsert\<close> returns \<^verbatim>\<open>errDupNet\<close> if and only if the node
  at depth \<open>n\<close> along the bit path of the address already carries an entry, and returns
  \<^verbatim>\<open>nil\<close> otherwise; when it fails, the entry at that node is the one that was there before.
  In a trie built from \<^term>\<open>New\<close> by a sequence of calls, the node carries an entry exactly
  when an earlier call of the sequence that returned \<^verbatim>\<open>nil\<close> has the same bit path.
\<close>

theorem viewInsert_duplicate_iff:
  "(fst (viewInsert v a n info) = Some errDupNet \<longleftrightarrow> entryAt v (addrPath a n) \<noteq> None)
   \<and> (fst (viewInsert v a n info) = None \<longleftrightarrow> entryAt v (addrPath a n) = None)
   \<and> (fst (viewInsert v a n info) = Some errDupNet \<longrightarrow>
        entryAt (snd (viewInsert v a n info)) (addrPath a n) = entryAt v (addrPath a n))
   \<and> (fst (viewInsert (insertAll New cs) a n info) = Some errDupNet \<longleftrightarrow>
        (\<exists>(a', n', e') \<in> set (inserted New cs). addrPath a' n' = addrPath a n))"
  using inserted_dup_iff [of cs a n info]
  by (simp add: viewInsert_err entryAt_viewInsert)

theorem viewInsert_duplicate_iff_witness:
  "fst (viewInsert (insertAll New [(0x0A000000, 24, \<lparr>area = ''a'', subnet = ''10.0.0.0/24''\<rparr>)])
         0x0A000000 24 (Some \<lparr>area = ''b'', subnet = ''10.0.0.0/24''\<rparr>)) = Some errDupNet
   \<and> entryAt (snd (viewInsert (insertAll New [(0x0A000000, 24, \<lparr>area = ''a'', subnet = ''10.0.0.0/24''\<rparr>)])
         0x0A000000 24 (Some \<lparr>area = ''b'', subnet = ''10.0.0.0/24''\<rparr>))) (addrPath 0x0A000000 24)
       = Some \<lparr>area = ''a'', subnet = ''10.0.0.0/24''\<rparr>"
proof -
  let ?a = "\<lparr>area = ''a'', subnet = ''10.0.0.0/24''\<rparr>"
  let ?b = "\<lparr>area = ''b'', subnet = ''10.0.0.0/24''\<rparr>"
  let ?v = "insertAll New [(0x0A000000, 24, ?a)]"
  have ins: "inserted New [(0x0A000000, 24, ?a)] = [(0x0A000000, 24, ?a)]" by code_simp
  have at: "entryAt ?v (addrPath 0x0A000000 24) = Some ?a" by code_simp
  from viewInsert_duplicate_iff [of ?v "0x0A000000" 24 "Some ?b" "[(0x0A000000, 24, ?a)]"]
  show ?thesis
    unfolding ins at by simp
qed

text \<open>
  Claim C4 (a failed insertion changes nothing). When \<^verbatim>\<open>viewInsert\<close> returns \<^verbatim>\<open>errDupNet\<close>, the
  receiver after the call equals the receiver before it (no node created, no child pointer
  and no entry changed), so every lookup returns what it returned before.
\<close>

theorem viewInsert_failed_no_change:
  "fst (viewInsert v a n info) = Some errDupNet \<Longrightarrow>
   snd (viewInsert v a n info) = v \<and> (\<forall>A. viewLookup (snd (viewInsert v a n info)) A = viewLookup v A)"
  by (simp add: viewInsert_failed_unchanged)

theorem viewInsert_failed_no_change_witness:
  "fst (viewInsert (snd (viewInsert New 0x0A000000 8 (Some \<lparr>area = ''a'', subnet = ''10.0.0.0/8''\<rparr>)))
          0x0A000000 8 (Some \<lparr>area = ''b'', subnet = ''10.0.0.0/8''\<rparr>)) = Some errDupNet
   \<and> snd (viewInsert (snd (viewInsert New 0x0A000000 8 (Some \<lparr>area = ''a'', subnet = ''10.0.0.0/8''\<rparr>)))
          0x0A000000 8 (Some \<lparr>area = ''b'', subnet = ''10.0.0.0/8''\<rparr>))
       = snd (viewInsert New 0x0A000000 8 (Some \<lparr>area = ''a'', subnet = ''10.0.0.0/8''\<rparr>))"
proof -
  let ?v = "snd (viewInsert New 0x0A000000 8 (Some \<lparr>area = ''a'', subnet = ''10.0.0.0/8''\<rparr>))"
  have f: "fst (viewInsert ?v 0x0A000000 8 (Some \<lparr>area = ''b'', subnet = ''10.0.0.0/8''\<rparr>)) = Some errDupNet"
    by code_simp
  from viewInsert_failed_no_change [OF f] f show ?thesis by simp
qed

text \<open>
  Claim C5 (nested prefixes). When the bit path of one prefix is a strict prefix of the bit
  path of the other, inserting the two into a fresh trie succeeds both times and both entries
  are kept, each at its own depth. With prefix lengths in \<open>[0, 32]\<close> the lookup of any address
  then resolves between the two by depth: it returns the entry of the longer prefix when
  both contain the address, the entry of the one that contains it when only one does, and
  \<^verbatim>\<open>nil\<close> when neither does. After \<^verbatim>\<open>viewInsert(10.0.0.0, 8, A)\<close> and then
  \<^verbatim>\<open>viewInsert(10.1.0.0, 16, B)\<close> on a fresh trie, both returning \<^verbatim>\<open>nil\<close>, the lookup of
  10.1.2.3 returns \<open>B\<close>, the lookup of 10.2.2.3 returns \<open>A\<close>, and the lookup of 11.0.0.0
  returns \<^verbatim>\<open>nil\<close>.
\<close>

theorem nested_prefixes_coexist:
  "(strict_prefix (addrPath a1 n1) (addrPath a2 n2) \<or> strict_prefix (addrPath a2 n2) (addrPath a1 n1) \<longrightarrow>
      fst (viewInsert New a1 n1 (Some e1)) = None
      \<and> fst (viewInsert (snd (viewInsert New a1 n1 (Some e1))) a2 n2 (Some e2)) = None
      \<and> entryAt (snd (viewInsert (snd (viewInsert New a1 n1 (Some e1))) a2 n2 (Some e2)))
            (addrPath a1 n1) = Some e1
      \<and> entryAt (snd (viewInsert (snd (viewInsert New a1 n1 (Some e1))) a2 n2 (Some e2)))
            (addrPath a2 n2) = Some e2)
   \<and> ((strict_prefix (addrPath a1 n1) (addrPath a2 n2) \<or> strict_prefix (addrPath a2 n2) (addrPath a1 n1))
        \<and> 0 \<le> n1 \<and> n1 \<le> 32 \<and> 0 \<le> n2 \<and> n2 \<le> 32 \<longrightarrow>
      (\<forall>A. viewLookup (snd (viewInsert (snd (viewInsert New a1 n1 (Some e1))) a2 n2 (Some e2))) A =
         (if prefixMatch a1 n1 A \<and> prefixMatch a2 n2 A then (if n1 < n2 then Some e2 else Some e1)
          else if prefixMatch a1 n1 A then Some e1
          else if prefixMatch a2 n2 A then Some e2
          else None)))
   \<and> fst (viewInsert New 0x0A000000 8 (Some eA)) = None
   \<and> fst (viewInsert (snd (viewInsert New 0x0A000000 8 (Some eA))) 0x0A010000 16 (Some eB)) = None
   \<and> viewLookup (snd (viewInsert (snd (viewInsert New 0x0A000000 8 (Some eA))) 0x0A010000 16 (Some eB)))
        0x0A010203 = Some eB
   \<and> viewLookup (snd (viewInsert (snd (viewInsert New 0x0A000000 8 (Some eA))) 0x0A010000 16 (Some eB)))
        0x0A020203 = Some eA
   \<and> viewLookup (snd (viewInsert (snd (viewInsert New 0x0A000000 8 (Some eA))) 0x0A010000 16 (Some eB)))
        0x0B000000 = None"
proof (intro conjI impI allI)
  assume "strict_prefix (addrPath a1 n1) (addrPath a2 n2) \<or> strict_prefix (addrPath a2 n2) (addrPath a1 n1)"
  then have ne: "addrPath a1 n1 \<noteq> addrPath a2 n2" by auto
  note two_inserts_distinct_paths [OF ne]
  then show "fst (viewInsert New a1 n1 (Some e1)) = None"
    and "fst (viewInsert (snd (viewInsert New a1 n1 (Some e1))) a2 n2 (Some e2)) = None"
    and "entryAt (snd (viewInsert (snd (viewInsert New a1 n1 (Some e1))) a2 n2 (Some e2)))
            (addrPath a1 n1) = Some e1"
    and "entryAt (snd (viewInsert (snd (viewInsert New a1 n1 (Some e1))) a2 n2 (Some e2)))
            (addrPath a2 n2) = Some e2"
    by blast+
next
  fix A
  assume "(strict_prefix (addrPath a1 n1) (addrPath a2 n2) \<or> strict_prefix (addrPath a2 n2) (addrPath a1 n1))
        \<and> 0 \<le> n1 \<and> n1 \<le> 32 \<and> 0 \<le> n2 \<and> n2 \<le> 32"
  then show "viewLookup (snd (viewInsert (snd (viewInsert New a1 n1 (Some e1))) a2 n2 (Some e2))) A =
         (if prefixMatch a1 n1 A \<and> prefixMatch a2 n2 A then (if n1 < n2 then Some e2 else Some e1)
          else if prefixMatch a1 n1 A then Some e1
          else if prefixMatch a2 n2 A then Some e2
          else None)"
    using nested_lookup [of a1 n1 a2 n2 e1 e2 A] by blast
qed (simp_all add: trie_eval)

theorem nested_prefixes_coexist_witness:
  "strict_prefix (addrPath 0x0A000000 8) (addrPath 0x0A010203 32)
   \<and> (0 :: int) \<le> 8 \<and> (8 :: int) \<le> 32 \<and> (0 :: int) \<le> 32 \<and> (32 :: int) \<le> 32
   \<and> fst (viewInsert New 0x0A000000 8 (Some \<lparr>area = ''A'', subnet = ''10.0.0.0/8''\<rparr>)) = None
   \<and> fst (viewInsert (snd (viewInsert New 0x0A000000 8 (Some \<lparr>area = ''A'', subnet = ''10.0.0.0/8''\<rparr>)))
          0x0A010203 32 (Some \<lparr>area = ''H'', subnet = ''10.1.2.3/32''\<rparr>)) = None
   \<and> viewLookup (snd (viewInsert (snd (viewInsert New 0x0A000000 8 (Some \<lparr>area = ''A'', subnet = ''10.0.0.0/8''\<rparr>)))
          0x0A010203 32 (Some \<lparr>area = ''H'', subnet = ''10.1.2.3/32''\<rparr>))) 0x0A010203
       = Some \<lparr>area = ''H'', subnet = ''10.1.2.3/32''\<rparr>
   \<and> viewLookup (snd (viewInsert (snd (viewInsert New 0x0A000000 8 (Some \<lparr>area = ''A'', subnet = ''10.0.0.0/8''\<rparr>)))
          0x0A010203 32 (Some \<lparr>area = ''H'', subnet = ''10.1.2.3/32''\<rparr>))) 0x0A010204
       = Some \<lparr>area = ''A'', subnet = ''10.0.0.0/8''\<rparr>
   \<and> viewLookup (snd (viewInsert (snd (viewInsert New 0x0A000000 8 (Some \<lparr>area = ''A'', subnet = ''10.0.0.0/8''\<rparr>)))
          0x0A010203 32 (Some \<lparr>area = ''H'', subnet = ''10.1.2.3/32''\<rparr>))) 0x0B000000
       = None"
proof -
  have p: "strict_prefix (addrPath 0x0A000000 8) (addrPath 0x0A010203 32)"
    by code_simp
  have r: "(0 :: int) \<le> 8 \<and> (8 :: int) \<le> 32 \<and> (0 :: int) \<le> 32 \<and> (32 :: int) \<le> 32" by simp
  have m: "prefixMatch 0x0A000000 8 0x0A010203" "prefixMatch 0x0A010203 32 0x0A010203"
    "prefixMatch 0x0A000000 8 0x0A010204" "\<not> prefixMatch 0x0A010203 32 0x0A010204"
    "\<not> prefixMatch 0x0A000000 8 0x0B000000" "\<not> prefixMatch 0x0A010203 32 0x0B000000"
    by (simp_all add: prefixMatch_def drop_bit_eq_div)
  note T = nested_prefixes_coexist [of "0x0A000000" 8 "0x0A010203" 32
      "\<lparr>area = ''A'', subnet = ''10.0.0.0/8''\<rparr>" "\<lparr>area = ''H'', subnet = ''10.1.2.3/32''\<rparr>"]
  from T p r have ok: "fst (viewInsert New 0x0A000000 8 (Some \<lparr>area = ''A'', subnet = ''10.0.0.0/8''\<rparr>)) = None"
    "fst (viewInsert (snd (viewInsert New 0x0A000000 8 (Some \<lparr>area = ''A'', subnet = ''10.0.0.0/8''\<rparr>)))
          0x0A010203 32 (Some \<lparr>area = ''H'', subnet = ''10.1.2.3/32''\<rparr>)) = None"
    by blast+
  from T p r have L: "viewLookup (snd (viewInsert (snd (viewInsert New 0x0A000000 8 (Some \<lparr>area = ''A'', subnet = ''10.0.0.0/8''\<rparr>)))
          0x0A010203 32 (Some \<lparr>area = ''H'', subnet = ''10.1.2.3/32''\<rparr>))) A =
         (if prefixMatch 0x0A000000 8 A \<and> prefixMatch 0x0A010203 32 A then (if (8 :: int) < 32 then Some \<lparr>area = ''H'', subnet = ''10.1.2.3/32''\<rparr> else Some \<lparr>area = ''A'', subnet = ''10.0.0.0/8''\<rparr>)
          else if prefixMatch 0x0A000000 8 A then Some \<lparr>area = ''A'', subnet = ''10.0.0.0/8''\<rparr>
          else if prefixMatch 0x0A010203 32 A then Some \<lparr>area = ''H'', subnet = ''10.1.2.3/32''\<rparr>
          else None)" for A
    by blast
  show ?thesis
    using p ok by (simp add: L m)
qed

text \<open>
  Claim C6 (bounded lookup). In a trie built from \<^term>\<open>New\<close> by calls whose prefix lengths lie
  in \<open>[0, 32]\<close>, the loop of \<^verbatim>\<open>viewLookup\<close> visits at most 33 nodes, that is, makes at most 32
  steps down from the root, for every address; cut off after 33 iterations it has finished
  and returns the result of \<^verbatim>\<open>viewLookup\<close>.
\<close>

theorem viewLookup_at_most_33_nodes:
  assumes "\<forall>(a, n, e) \<in> set cs. 0 \<le> n \<and> n \<le> 32"
  shows "viewLookup_visits (Some (root (insertAll New cs))) A 0x80000000 \<le> 33
     \<and> viewLookup_bounded 33 (Some (root (insertAll New cs))) A 0x80000000 None
         = Some (viewLookup (insertAll New cs) A)"
proof -
  from assms have "\<forall>(a, n, e) \<in> set cs. n \<le> 32" by fastforce
  then have "height (Some (root (insertAll New cs))) \<le> 33"
    by (rule height_insertAll) (simp add: New_def)
  with viewLookup_visits_le_height [of "Some (root (insertAll New cs))" A "0x80000000"]
  have v: "viewLookup_visits (Some (root (insertAll New cs))) A 0x80000000 \<le> 33" by simp
  from viewLookup_bounded_enough [OF v] v show ?thesis
    by (simp add: viewLookup_def)
qed

theorem viewLookup_at_most_33_nodes_witness:
  "viewLookup_visits (Some (root (insertAll New
      [(0xFFFFFFFF, 32, \<lparr>area = ''h'', subnet = ''255.255.255.255/32''\<rparr>)]))) 0xFFFFFFFF 0x80000000 = 33
   \<and> viewLookup_bounded 33 (Some (root (insertAll New
      [(0xFFFFFFFF, 32, \<lparr>area = ''h'', subnet = ''255.255.255.255/32''\<rparr>)]))) 0xFFFFFFFF 0x80000000 None
      = Some (Some \<lparr>area = ''h'', subnet = ''255.255.255.255/32''\<rparr>)"
proof -
  let ?cs = "[(0xFFFFFFFF :: u32, 32 :: int, \<lparr>area = ''h'', subnet = ''255.255.255.255/32''\<rparr>)]"
  have r: "\<forall>(a, n, e) \<in> set ?cs. 0 \<le> n \<and> n \<le> 32" by simp
  have n: "viewLookup_visits (Some (root (insertAll New ?cs))) 0xFFFFFFFF 0x80000000 = 33" by code_simp
  have l: "viewLookup (insertAll New ?cs) 0xFFFFFFFF = Some \<lparr>area = ''h'', subnet = ''255.255.255.255/32''\<rparr>"
    by code_simp
  from viewLookup_at_most_33_nodes [OF r, of "0xFFFFFFFF"] n l show ?thesis by simp
qed

text \<open>
  Claim C7 (codec). \<^verbatim>\<open>viewUintAddr\<close> packs the four octets most significant first: the value is
  \<open>a * 2^24 + b * 2^16 + c * 2^8 + d\<close>, and the four bytes of the value, high byte first, are
  the four octets again.
\<close>

theorem viewUintAddr_big_endian:
  "unat (viewUintAddr (a, b, c, d)) = unat a * 2 ^ 24 + unat b * 2 ^ 16 + unat c * 2 ^ 8 + unat d
   \<and> (ucast (drop_bit 24 (viewUintAddr (a, b, c, d))),
       ucast (drop_bit 16 (viewUintAddr (a, b, c, d))),
       ucast (drop_bit 8 (viewUintAddr (a, b, c, d))),
       ucast (viewUintAddr (a, b, c, d))) = (a, b, c, d)"
  by (simp add: unat_bigEndianUint32 bigEndianUint32_bytes)

text \<open>
  Claim C8 (malformed addresses). \<^verbatim>\<open>Lookup\<close> returns \<^verbatim>\<open>errBadAddress\<close> if and only if splitting
  the text at \<^verbatim>\<open>"."\<close> does not give exactly four fields or \<^verbatim>\<open>strconv.Atoi\<close> fails on one of
  them; it then returns no entry, and otherwise it returns no error. The strings
  \<^verbatim>\<open>"1.2.3"\<close>, \<^verbatim>\<open>"1.2.3.4.5"\<close> and \<^verbatim>\<open>"a.b.c.d"\<close> give \<^verbatim>\<open>nil, errBadAddress\<close> on every trie.
\<close>

theorem Lookup_bad_address_iff:
  "(snd (Lookup v addr) = Some errBadAddress \<longleftrightarrow>
      length (bytesSplit addr (CHR ''.'')) \<noteq> 4
      \<or> (\<exists>f \<in> set (bytesSplit addr (CHR ''.'')). Atoi f = None))
   \<and> (snd (Lookup v addr) = Some errBadAddress \<longrightarrow> fst (Lookup v addr) = None)
   \<and> (snd (Lookup v addr) \<noteq> Some errBadAddress \<longrightarrow> snd (Lookup v addr) = None)
   \<and> Lookup v ''1.2.3'' = (None, Some errBadAddress)
   \<and> Lookup v ''1.2.3.4.5'' = (None, Some errBadAddress)
   \<and> Lookup v ''a.b.c.d'' = (None, Some errBadAddress)"
proof (intro conjI)
  show "snd (Lookup v addr) = Some errBadAddress \<longleftrightarrow>
      length (bytesSplit addr (CHR ''.'')) \<noteq> 4
      \<or> (\<exists>f \<in> set (bytesSplit addr (CHR ''.'')). Atoi f = None)"
    unfolding parseAddr_None [symmetric] by (simp add: Lookup_def split: option.splits)
  show "snd (Lookup v addr) = Some errBadAddress \<longrightarrow> fst (Lookup v addr) = None"
    by (simp add: Lookup_def split: option.splits)
  show "snd (Lookup v addr) \<noteq> Some errBadAddress \<longrightarrow> snd (Lookup v addr) = None"
    by (simp add: Lookup_def split: option.splits)
qed (simp_all add: Lookup_def parseAddr_def parseOctets_def Atoi_def isDigit_def)

theorem Lookup_bad_address_iff_witness:
  "length (bytesSplit ''10.0.0'' (CHR ''.'')) \<noteq> 4
   \<and> Lookup (snd (viewSubnet New ''10.0.0.0/8'' ''x'')) ''10.0.0'' = (None, Some errBadAddress)
   \<and> Lookup (snd (viewSubnet New ''10.0.0.0/8'' ''x'')) ''10.0.0.7''
       = (Some \<lparr>area = ''x'', subnet = ''10.0.0.0/8''\<rparr>, None)"
proof -
  have l: "length (bytesSplit ''10.0.0'' (CHR ''.'')) \<noteq> 4" by simp
  have ok: "Lookup (snd (viewSubnet New ''10.0.0.0/8'' ''x'')) ''10.0.0.7''
       = (Some \<lparr>area = ''x'', subnet = ''10.0.0.0/8''\<rparr>, None)" by code_simp
  from Lookup_bad_address_iff [of "snd (viewSubnet New ''10.0.0.0/8'' ''x'')" "''10.0.0''"] l
  have "snd (Lookup (snd (viewSubnet New ''10.0.0.0/8'' ''x'')) ''10.0.0'') = Some errBadAddress"
    and "fst (Lookup (snd (viewSubnet New ''10.0.0.0/8'' ''x'')) ''10.0.0'') = None"
    by blast+
  then have "Lookup (snd (viewSubnet New ''10.0.0.0/8'' ''x'')) ''10.0.0'' = (None, Some errBadAddress)"
    by (simp add: prod_eq_iff)
  with l ok show ?thesis by blast
qed

text \<open>
  Claim C9 (octets are truncated, not rejected). When the text splits into four fields that
  all parse as integers, parsing succeeds whatever their values: the address is packed from
  the fields modulo 256, and \<^verbatim>\<open>Lookup\<close> looks that address up and returns no error. So
  \<^verbatim>\<open>"256.0.0.1"\<close> and \<^verbatim>\<open>"0.0.0.1"\<close> denote the same address, and \<^verbatim>\<open>Lookup\<close> returns the same for
  both on every trie. \<^verbatim>\<open>viewSubnet\<close> truncates in the same way: the subnet \<^verbatim>\<open>"256.0.0.1/32"\<close> is
  found by the lookup of \<^verbatim>\<open>"0.0.0.1"\<close>.
\<close>

theorem octets_truncated_to_8_bits:
  "(bytesSplit addr (CHR ''.'') = [f0, f1, f2, f3]
      \<and> Atoi f0 = Some n0 \<and> Atoi f1 = Some n1 \<and> Atoi f2 = Some n2 \<and> Atoi f3 = Some n3 \<longrightarrow>
      (\<exists>u. parseAddr addr = Some u
          \<and> unat u = nat (n0 mod 256) * 2 ^ 24 + nat (n1 mod 256) * 2 ^ 16
                     + nat (n2 mod 256) * 2 ^ 8 + nat (n3 mod 256)
          \<and> Lookup v addr = (viewLookup v u, None)))
   \<and> parseAddr ''256.0.0.1'' = parseAddr ''0.0.0.1''
   \<and> parseAddr ''256.0.0.1'' = Some 1
   \<and> Lookup v ''256.0.0.1'' = Lookup v ''0.0.0.1''
   \<and> snd (Lookup v ''256.0.0.1'') = None
   \<and> Lookup (snd (viewSubnet New ''256.0.0.1/32'' ar)) ''0.0.0.1''
       = (Some \<lparr>area = ar, subnet = ''256.0.0.1/32''\<rparr>, None)"
proof (intro conjI impI)
  assume a: "bytesSplit addr (CHR ''.'') = [f0, f1, f2, f3]
      \<and> Atoi f0 = Some n0 \<and> Atoi f1 = Some n1 \<and> Atoi f2 = Some n2 \<and> Atoi f3 = Some n3"
  let ?u = "viewUintAddr (word_of_int n0, word_of_int n1, word_of_int n2, word_of_int n3)"
  have low: "unat (word_of_int n :: u8) = nat (n mod 256)" for n
    by (simp add: unat_eq_nat_uint uint_word_of_int)
  from a have p: "parseAddr addr = Some ?u"
    by (simp add: parseAddr_def parseOctets_def)
  moreover have "unat ?u = nat (n0 mod 256) * 2 ^ 24 + nat (n1 mod 256) * 2 ^ 16
                     + nat (n2 mod 256) * 2 ^ 8 + nat (n3 mod 256)"
    by (simp only: viewUintAddr.simps unat_bigEndianUint32 low)
  moreover from p have "Lookup v addr = (viewLookup v ?u, None)"
    by (simp add: Lookup_def)
  ultimately show "\<exists>u. parseAddr addr = Some u
          \<and> unat u = nat (n0 mod 256) * 2 ^ 24 + nat (n1 mod 256) * 2 ^ 16
                     + nat (n2 mod 256) * 2 ^ 8 + nat (n3 mod 256)
          \<and> Lookup v addr = (viewLookup v u, None)"
    by blast
next
  have p1: "parseAddr ''256.0.0.1'' = Some 1" by code_simp
  have p2: "parseAddr ''0.0.0.1'' = Some 1" by code_simp
  from p1 p2 show "parseAddr ''256.0.0.1'' = parseAddr ''0.0.0.1''" by simp
  from p1 show "parseAddr ''256.0.0.1'' = Some 1" .
  from p1 p2 show "Lookup v ''256.0.0.1'' = Lookup v ''0.0.0.1''" by (simp add: Lookup_def)
  from p1 show "snd (Lookup v ''256.0.0.1'') = None" by (simp add: Lookup_def)
  show "Lookup (snd (viewSubnet New ''256.0.0.1/32'' ar)) ''0.0.0.1''
       = (Some \<lparr>area = ar, subnet = ''256.0.0.1/32''\<rparr>, None)"
    by (rule viewSubnet_example)
qed

theorem octets_truncated_to_8_bits_witness:
  "bytesSplit ''300.-1.0.513'' (CHR ''.'') = [''300'', ''-1'', ''0'', ''513'']
   \<and> Atoi ''300'' = Some 300 \<and> Atoi ''-1'' = Some (- 1) \<and> Atoi ''0'' = Some 0 \<and> Atoi ''513'' = Some 513
   \<and> (\<exists>u. parseAddr ''300.-1.0.513'' = Some u \<and> unat u = 44 * 2 ^ 24 + 255 * 2 ^ 16 + 0 * 2 ^ 8 + 1)"
proof -
  have s: "bytesSplit ''300.-1.0.513'' (CHR ''.'') = [''300'', ''-1'', ''0'', ''513'']" by simp
  have a: "Atoi ''300'' = Some 300" "Atoi ''-1'' = Some (- 1)" "Atoi ''0'' = Some 0" "Atoi ''513'' = Some 513"
    by code_simp+
  from octets_truncated_to_8_bits [of "''300.-1.0.513''" "''300''" "''-1''" "''0''" "''513''" 300 "- 1" 0 513 New] s a
  obtain u where "parseAddr ''300.-1.0.513'' = Some u"
    "unat u = nat (300 mod 256) * 2 ^ 24 + nat (- 1 mod 256) * 2 ^ 16 + nat (0 mod 256) * 2 ^ 8 + nat (513 mod 256)"
    by blast
  then have "parseAddr ''300.-1.0.513'' = Some u \<and> unat u = 44 * 2 ^ 24 + 255 * 2 ^ 16 + 0 * 2 ^ 8 + 1"
    by simp
  with s a show ?thesis by blast
qed

text \<open>
  Claim C10 (negative prefix length). For every \<open>n < 0\<close>, \<^verbatim>\<open>viewInsert\<close> with prefix length
  \<open>n\<close> does what it does with prefix length 0: neither loop runs, and the entry is attached
  at the root, whose children stay as they are, unless the root already carries an entry,
  in which case \<^verbatim>\<open>errDupNet\<close> is returned and nothing changes.
\<close>

theorem viewInsert_negative_mask:
  "n < 0 \<Longrightarrow>
   viewInsert v a n info = viewInsert v a 0 info
   \<and> viewInsert v a n info =
       (if vinfo (root v) \<noteq> None then (Some errDupNet, v)
        else (None, v\<lparr>root := ViewNode (left (root v)) (right (root v)) info\<rparr>))"
  by (simp add: viewInsert_nonpos setVinfo_def)

theorem viewInsert_negative_mask_witness:
  "(-1 :: int) < 0
   \<and> viewInsert New 0x0A000000 (-1) (Some \<lparr>area = ''a'', subnet = ''10.0.0.0/-1''\<rparr>)
       = viewInsert New 0x0A000000 0 (Some \<lparr>area = ''a'', subnet = ''10.0.0.0/-1''\<rparr>)
   \<and> viewInsert New 0x0A000000 (-1) (Some \<lparr>area = ''a'', subnet = ''10.0.0.0/-1''\<rparr>)
       = (None, New\<lparr>root := ViewNode None None (Some \<lparr>area = ''a'', subnet = ''10.0.0.0/-1''\<rparr>)\<rparr>)"
proof -
  have h: "(-1 :: int) < 0" by simp
  have r: "vinfo (root New) = None" "left (root New) = None" "right (root New) = None"
    by (simp_all add: New_def emptyNode_def)
  from viewInsert_negative_mask [OF h, of New "0x0A000000" "Some \<lparr>area = ''a'', subnet = ''10.0.0.0/-1''\<rparr>"]
  show ?thesis unfolding r by auto
qed

end
